theory Spec2Isabelle
  imports
    Main
    "HOL-Library.Word"
    "HOL-Library.Sublist"
    "HOL-Library.Char_ord"
    "HOL-Library.List_Lexorder"
    "HOL-Library.Product_Lexorder"
    "HOL-Library.Multiset"
begin

section \<open>The state store of consul (consul/state_store.go)\<close>

text \<open>
  The state store keeps six tables (nodes, services, checks, kvs, sessions, sessionChecks)
  in one key/value environment. Every method of \<^verbatim>\<open>StateStore\<close> opens a transaction, reads and
  writes tables through \<^verbatim>\<open>MDBTable\<close>, and either commits or, by the deferred
  \<^verbatim>\<open>tx.Abort()\<close>, leaves the store as it was. The methods are translated here one by one,
  with every \<^verbatim>\<open>if err != nil { return ... }\<close> of the source as a branch.
\<close>

subsection \<open>Records of package structs\<close>

text \<open>
  Modelled from the spec: the record types of package \<^verbatim>\<open>structs\<close> (Node, ServiceNode,
  NodeService, HealthCheck, DirEntry, Session, CheckServiceNode) are declared outside
  state_store.go. Their fields are those the data model of the specification lists and the
  source reads or writes. Go strings are byte strings, here \<^typ>\<open>string\<close>; \<^verbatim>\<open>uint64\<close> is
  \<^typ>\<open>64 word\<close>. Field names carry a prefix for the record they belong to, except those of
  DirEntry.
\<close>

record Node =
  nd_Node :: string
  nd_Address :: string

record ServiceNode =
  sn_Node :: string
  sn_Address :: string
  sn_ServiceID :: string
  sn_ServiceName :: string
  sn_ServiceTags :: "string list"
  sn_ServicePort :: int

record NodeService =
  ns_ID :: string
  ns_Service :: string
  ns_Tags :: "string list"
  ns_Port :: int

record HealthCheck =
  hc_Node :: string
  hc_CheckID :: string
  hc_Name :: string
  hc_Status :: string
  hc_Notes :: string
  hc_ServiceID :: string
  hc_ServiceName :: string

record DirEntry =
  CreateIndex :: "64 word"
  ModifyIndex :: "64 word"
  Key :: string
  Flags :: "64 word"
  Value :: string

record Session =
  ss_CreateIndex :: "64 word"
  ss_ID :: string
  ss_Name :: string
  ss_Node :: string
  ss_Checks :: "string list"

text \<open>The cross-reference row of state_store.go, lines 59 to 63.\<close>

record sessionCheck =
  sc_Node :: string
  sc_CheckID :: string
  sc_Session :: string

record CheckServiceNode =
  csn_Node :: Node
  csn_Service :: NodeService
  csn_Checks :: "HealthCheck option list"

text \<open>
  Modelled from the spec: the status strings \<^verbatim>\<open>structs.HealthUnknown\<close> and
  \<^verbatim>\<open>structs.HealthCritical\<close>, which state_store.go uses, are "unknown" and "critical".
\<close>

definition HealthUnknown :: string where
  "HealthUnknown = ''unknown''"

definition HealthCritical :: string where
  "HealthCritical = ''critical''"

subsection \<open>Errors\<close>

text \<open>
  \<open>TableError\<close> is an error returned by an operation of \<^verbatim>\<open>MDBTable\<close> or of the transaction;
  the other constructors are the errors state_store.go builds with \<^verbatim>\<open>fmt.Errorf\<close>, and
  the \<open>Panic\<close> constructors are the panics: of a query or multi-table write whose
  transaction cannot be started or whose last index cannot be read, and of a slice expression
  out of range.
\<close>

datatype error =
    TableError
  | MissingNode
  | MissingService
  | MissingCheck string
  | CheckCritical string string
  | PanicStartTxn
  | PanicLastIndex
  | PanicSliceBounds

subsection \<open>Tables and transactions\<close>

text \<open>
  Modelled from the spec: \<^verbatim>\<open>MDBTable\<close>, \<^verbatim>\<open>MDBTables\<close> and \<^verbatim>\<open>MDBTxn\<close> (mdb_table.go) are not
  part of state_store.go. A table is its rows, kept in ascending order of the primary key
  (the engine is key-ordered), and its last-index watermark. An insert on an existing
  primary key replaces the row; a lookup returns the rows that match the index parts, in key
  order; a delete removes the matching rows and returns how many there were.

  Every operation of a table or a transaction can fail. What makes it fail is outside the
  store, so a call of a store method takes a script \<open>flt\<close>: the \<open>n\<close>-th operation of the
  call fails with \<open>TableError\<close> when the \<open>n\<close>-th flag of the script is \<open>True\<close>; beyond the
  end of the script nothing fails.
\<close>

record 'r table =
  rows :: "'r list"
  lastIndex :: "64 word"

definition fails :: "bool list \<Rightarrow> bool" where
  "fails flt = (case flt of [] \<Rightarrow> False | b # _ \<Rightarrow> b)"

definition engine_op :: "'a \<Rightarrow> bool list \<Rightarrow> (error + 'a) \<times> bool list" where
  "engine_op v flt = (if fails flt then Inl TableError else Inr v, tl flt)"

definition nofault :: "bool list \<Rightarrow> bool" where
  "nofault flt = (\<forall>b \<in> set flt. \<not> b)"

definition upsert :: "('r \<Rightarrow> 'k::linorder) \<Rightarrow> 'r \<Rightarrow> 'r list \<Rightarrow> 'r list" where
  "upsert key r rs = insort_key key r (filter (\<lambda>x. key x \<noteq> key r) rs)"

definition StartTxn :: "bool list \<Rightarrow> (error + unit) \<times> bool list" where
  "StartTxn flt = engine_op () flt"

definition Commit :: "bool list \<Rightarrow> (error + unit) \<times> bool list" where
  "Commit flt = engine_op () flt"

definition GetTxn :: "('r \<Rightarrow> bool) \<Rightarrow> 'r table \<Rightarrow> bool list \<Rightarrow> (error + 'r list) \<times> bool list" where
  "GetTxn match t flt = engine_op (filter match (rows t)) flt"

definition InsertTxn ::
  "('r \<Rightarrow> 'k::linorder) \<Rightarrow> 'r \<Rightarrow> 'r table \<Rightarrow> bool list \<Rightarrow> (error + 'r table) \<times> bool list" where
  "InsertTxn key r t flt = engine_op (t\<lparr>rows := upsert key r (rows t)\<rparr>) flt"

definition DeleteTxn ::
  "('r \<Rightarrow> bool) \<Rightarrow> 'r table \<Rightarrow> bool list \<Rightarrow> (error + nat \<times> 'r table) \<times> bool list" where
  "DeleteTxn match t flt =
     engine_op (length (filter match (rows t)),
                t\<lparr>rows := filter (\<lambda>x. \<not> match x) (rows t)\<rparr>) flt"

definition SetLastIndexTxn ::
  "64 word \<Rightarrow> 'r table \<Rightarrow> bool list \<Rightarrow> (error + 'r table) \<times> bool list" where
  "SetLastIndexTxn index t flt = engine_op (t\<lparr>lastIndex := index\<rparr>) flt"

definition SetMaxLastIndexTxn ::
  "64 word \<Rightarrow> 'r table \<Rightarrow> bool list \<Rightarrow> (error + 'r table) \<times> bool list" where
  "SetMaxLastIndexTxn index t flt = engine_op (t\<lparr>lastIndex := max index (lastIndex t)\<rparr>) flt"

subsection \<open>The store\<close>

record store =
  nodeTable :: "Node table"
  serviceTable :: "ServiceNode table"
  checkTable :: "HealthCheck table"
  kvsTable :: "DirEntry table"
  sessionTable :: "Session table"
  sessionCheckTable :: "sessionCheck table"

datatype table_id = dbNodes | dbServices | dbChecks | dbKVS | dbSessions | dbSessionChecks

text \<open>
  What a call of a store method leaves behind: the error it returns (\<open>None\<close> for \<^verbatim>\<open>nil\<close>),
  the store after the call, the tables whose \<^verbatim>\<open>NotifyGroup\<close> fired (the deferred
  \<^verbatim>\<open>Notify()\<close> calls run when the method returns, last registered first, also when a
  later step returned an error), and \<open>val\<close>: the other results, among them the argument
  record the method updates through its pointer.
\<close>

record 'a outcome =
  err :: "error option"
  st :: store
  fired :: "table_id list"
  val :: 'a

definition empty_table :: "'r table" where
  "empty_table = \<lparr>rows = [], lastIndex = 0\<rparr>"

definition empty_store :: store where
  "empty_store = \<lparr>nodeTable = empty_table, serviceTable = empty_table,
     checkTable = empty_table, kvsTable = empty_table, sessionTable = empty_table,
     sessionCheckTable = empty_table\<rparr>"

subsection \<open>KV entries: KVSSet, KVSRestore, KVSCheckAndSet\<close>

text \<open>The row stored under a key, if any (what \<^verbatim>\<open>Get("id", key)\<close> finds).\<close>

definition kvs_entry :: "store \<Rightarrow> string \<Rightarrow> DirEntry option" where
  "kvs_entry s k = find (\<lambda>r. Key r = k) (rows (kvsTable s))"

text \<open>state_store.go, lines 891 to 921.\<close>

definition KVSSet :: "bool list \<Rightarrow> 64 word \<Rightarrow> DirEntry \<Rightarrow> store \<Rightarrow> DirEntry outcome" where
  "KVSSet flt index d s =
     (case StartTxn flt of
        (Inl e, _) \<Rightarrow> \<lparr>err = Some e, st = s, fired = [], val = d\<rparr>
      | (Inr _, f1) \<Rightarrow>
     (case GetTxn (\<lambda>r. Key r = Key d) (kvsTable s) f1 of
        (Inl e, _) \<Rightarrow> \<lparr>err = Some e, st = s, fired = [], val = d\<rparr>
      | (Inr res, f2) \<Rightarrow>
        let d1 = (case res of
                    [] \<Rightarrow> d\<lparr>CreateIndex := index\<rparr>
                  | r # _ \<Rightarrow> d\<lparr>CreateIndex := CreateIndex r\<rparr>);
            d2 = d1\<lparr>ModifyIndex := index\<rparr>
        in
     (case InsertTxn Key d2 (kvsTable s) f2 of
        (Inl e, _) \<Rightarrow> \<lparr>err = Some e, st = s, fired = [], val = d2\<rparr>
      | (Inr t1, f3) \<Rightarrow>
     (case SetLastIndexTxn index t1 f3 of
        (Inl e, _) \<Rightarrow> \<lparr>err = Some e, st = s, fired = [], val = d2\<rparr>
      | (Inr t2, f4) \<Rightarrow>
     (case Commit f4 of
        (Inl e, _) \<Rightarrow> \<lparr>err = Some e, st = s, fired = [dbKVS], val = d2\<rparr>
      | (Inr _, _) \<Rightarrow> \<lparr>err = None, st = s\<lparr>kvsTable := t2\<rparr>, fired = [dbKVS], val = d2\<rparr>)))))"

text \<open>state_store.go, lines 925 to 937.\<close>

definition KVSRestore :: "bool list \<Rightarrow> DirEntry \<Rightarrow> store \<Rightarrow> unit outcome" where
  "KVSRestore flt d s =
     (case StartTxn flt of
        (Inl e, _) \<Rightarrow> \<lparr>err = Some e, st = s, fired = [], val = ()\<rparr>
      | (Inr _, f1) \<Rightarrow>
     (case InsertTxn Key d (kvsTable s) f1 of
        (Inl e, _) \<Rightarrow> \<lparr>err = Some e, st = s, fired = [], val = ()\<rparr>
      | (Inr t1, f2) \<Rightarrow>
     (case Commit f2 of
        (Inl e, _) \<Rightarrow> \<lparr>err = Some e, st = s, fired = [], val = ()\<rparr>
      | (Inr _, _) \<Rightarrow> \<lparr>err = None, st = s\<lparr>kvsTable := t1\<rparr>, fired = [], val = ()\<rparr>)))"

text \<open>
  state_store.go, lines 1047 to 1092. The first component of \<open>val\<close> is the boolean the
  method returns, the second the entry behind the pointer \<^verbatim>\<open>d\<close>.
\<close>

definition KVSCheckAndSet ::
  "bool list \<Rightarrow> 64 word \<Rightarrow> DirEntry \<Rightarrow> store \<Rightarrow> (bool \<times> DirEntry) outcome" where
  "KVSCheckAndSet flt index d s =
     (case StartTxn flt of
        (Inl e, _) \<Rightarrow> \<lparr>err = Some e, st = s, fired = [], val = (False, d)\<rparr>
      | (Inr _, f1) \<Rightarrow>
     (case GetTxn (\<lambda>r. Key r = Key d) (kvsTable s) f1 of
        (Inl e, _) \<Rightarrow> \<lparr>err = Some e, st = s, fired = [], val = (False, d)\<rparr>
      | (Inr res, f2) \<Rightarrow>
        let exist = (case res of [] \<Rightarrow> None | r # _ \<Rightarrow> Some r) in
        if ModifyIndex d = 0 \<and> exist \<noteq> None
        then \<lparr>err = None, st = s, fired = [], val = (False, d)\<rparr>
        else if 0 < ModifyIndex d \<and>
                (case exist of None \<Rightarrow> True | Some x \<Rightarrow> ModifyIndex x \<noteq> ModifyIndex d)
        then \<lparr>err = None, st = s, fired = [], val = (False, d)\<rparr>
        else
        let d1 = (case exist of
                    None \<Rightarrow> d\<lparr>CreateIndex := index\<rparr>
                  | Some x \<Rightarrow> d\<lparr>CreateIndex := CreateIndex x\<rparr>);
            d2 = d1\<lparr>ModifyIndex := index\<rparr>
        in
     (case InsertTxn Key d2 (kvsTable s) f2 of
        (Inl e, _) \<Rightarrow> \<lparr>err = Some e, st = s, fired = [], val = (False, d2)\<rparr>
      | (Inr t1, f3) \<Rightarrow>
     (case SetLastIndexTxn index t1 f3 of
        (Inl e, _) \<Rightarrow> \<lparr>err = Some e, st = s, fired = [], val = (False, d2)\<rparr>
      | (Inr t2, f4) \<Rightarrow>
     (case Commit f4 of
        (Inl e, _) \<Rightarrow> \<lparr>err = Some e, st = s, fired = [dbKVS], val = (True, d2)\<rparr>
      | (Inr _, _) \<Rightarrow>
          \<lparr>err = None, st = s\<lparr>kvsTable := t2\<rparr>, fired = [dbKVS], val = (True, d2)\<rparr>)))))"

text \<open>The precondition of check-and-set, as the specification words it.\<close>

definition cas_allowed :: "store \<Rightarrow> DirEntry \<Rightarrow> bool" where
  "cas_allowed s d =
     ((ModifyIndex d = 0 \<and> kvs_entry s (Key d) = None) \<or>
      (0 < ModifyIndex d \<and>
       (case kvs_entry s (Key d) of None \<Rightarrow> False | Some x \<Rightarrow> ModifyIndex x = ModifyIndex d)))"


subsection \<open>Deletes\<close>


definition notify :: "bool \<Rightarrow> table_id \<Rightarrow> table_id list" where
  "notify registered T = (if registered then [T] else [])"




text \<open>
  Modelled from the spec: how the kvs table resolves an index name and its parts. Without
  parts every row matches; \<^verbatim>\<open>id\<close> matches the key itself, the virtual index
  \<^verbatim>\<open>id_prefix\<close> every key that begins with the part.
\<close>

definition kvs_match :: "string \<Rightarrow> string list \<Rightarrow> DirEntry \<Rightarrow> bool" where
  "kvs_match tableIndex parts r =
     (case parts of
        [] \<Rightarrow> True
      | p # _ \<Rightarrow> if tableIndex = ''id_prefix'' then prefix p (Key r) else Key r = p)"

text \<open>state_store.go, lines 1024 to 1044.\<close>

definition kvsDeleteWithIndex ::
  "bool list \<Rightarrow> 64 word \<Rightarrow> string \<Rightarrow> string list \<Rightarrow> store \<Rightarrow> unit outcome" where
  "kvsDeleteWithIndex flt index tableIndex parts s =
     (case StartTxn flt of
        (Inl e, _) \<Rightarrow> \<lparr>err = Some e, st = s, fired = [], val = ()\<rparr>
      | (Inr _, f1) \<Rightarrow>
     (case DeleteTxn (kvs_match tableIndex parts) (kvsTable s) f1 of
        (Inl e, _) \<Rightarrow> \<lparr>err = Some e, st = s, fired = [], val = ()\<rparr>
      | (Inr (num, t1), f2) \<Rightarrow>
     (case (if 0 < num then SetLastIndexTxn index t1 f2 else (Inr t1, f2)) of
        (Inl e, _) \<Rightarrow> \<lparr>err = Some e, st = s, fired = [], val = ()\<rparr>
      | (Inr t2, f3) \<Rightarrow>
     (case Commit f3 of
        (Inl e, _) \<Rightarrow> \<lparr>err = Some e, st = s, fired = notify (0 < num) dbKVS, val = ()\<rparr>
      | (Inr _, _) \<Rightarrow>
          \<lparr>err = None, st = s\<lparr>kvsTable := t2\<rparr>, fired = notify (0 < num) dbKVS,
           val = ()\<rparr>))))"



text \<open>The watermark and the number of rows of each table, and the list of all tables.\<close>

fun watermark :: "store \<Rightarrow> table_id \<Rightarrow> 64 word" where
  "watermark s dbNodes = lastIndex (nodeTable s)"
| "watermark s dbServices = lastIndex (serviceTable s)"
| "watermark s dbChecks = lastIndex (checkTable s)"
| "watermark s dbKVS = lastIndex (kvsTable s)"
| "watermark s dbSessions = lastIndex (sessionTable s)"
| "watermark s dbSessionChecks = lastIndex (sessionCheckTable s)"




subsection \<open>Checks\<close>

text \<open>
  state_store.go, lines 626 to 672. \<open>val\<close> is the check behind the pointer \<^verbatim>\<open>check\<close> when
  the method returns.
\<close>

definition EnsureCheck ::
  "bool list \<Rightarrow> 64 word \<Rightarrow> HealthCheck \<Rightarrow> store \<Rightarrow> HealthCheck outcome" where
  "EnsureCheck flt index check s =
     (let check1 = (if hc_Status check = [] then check\<lparr>hc_Status := HealthUnknown\<rparr> else check)
      in
     (case StartTxn flt of
        (Inl e, _) \<Rightarrow> \<lparr>err = Some PanicStartTxn, st = s, fired = [], val = check1\<rparr>
      | (Inr _, f1) \<Rightarrow>
     (case GetTxn (\<lambda>r. nd_Node r = hc_Node check1) (nodeTable s) f1 of
        (Inl e, _) \<Rightarrow> \<lparr>err = Some e, st = s, fired = [], val = check1\<rparr>
      | (Inr res, f2) \<Rightarrow>
        if length res = 0
        then \<lparr>err = Some MissingNode, st = s, fired = [], val = check1\<rparr>
        else
     (case (if hc_ServiceID check1 \<noteq> [] then
              (case GetTxn (\<lambda>r. sn_Node r = hc_Node check1 \<and>
                                 sn_ServiceID r = hc_ServiceID check1) (serviceTable s) f2 of
                 (Inl e, f3) \<Rightarrow> (Inl e, f3)
               | (Inr res, f3) \<Rightarrow>
                   (case res of
                      [] \<Rightarrow> (Inl MissingService, f3)
                    | srv # _ \<Rightarrow> (Inr (check1\<lparr>hc_ServiceName := sn_ServiceName srv\<rparr>), f3)))
            else (Inr check1, f2)) of
        (Inl e, _) \<Rightarrow> \<lparr>err = Some e, st = s, fired = [], val = check1\<rparr>
      | (Inr check2, f3) \<Rightarrow>
     (case InsertTxn (\<lambda>r. (hc_Node r, hc_CheckID r)) check2 (checkTable s) f3 of
        (Inl e, _) \<Rightarrow> \<lparr>err = Some e, st = s, fired = [], val = check2\<rparr>
      | (Inr t1, f4) \<Rightarrow>
     (case SetLastIndexTxn index t1 f4 of
        (Inl e, _) \<Rightarrow> \<lparr>err = Some e, st = s, fired = [], val = check2\<rparr>
      | (Inr t2, f5) \<Rightarrow>
     (case Commit f5 of
        (Inl e, _) \<Rightarrow> \<lparr>err = Some e, st = s, fired = [dbChecks], val = check2\<rparr>
      | (Inr _, _) \<Rightarrow>
          \<lparr>err = None, st = s\<lparr>checkTable := t2\<rparr>, fired = [dbChecks], val = check2\<rparr>)))))))"

text \<open>The check with the default of its Status (lines 628 to 630).\<close>

definition defaulted :: "HealthCheck \<Rightarrow> HealthCheck" where
  "defaulted check =
     (if hc_Status check = [] then check\<lparr>hc_Status := HealthUnknown\<rparr> else check)"

text \<open>The rows a check refers to, and the row stored under a check id.\<close>

definition node_row :: "store \<Rightarrow> string \<Rightarrow> Node option" where
  "node_row s n = find (\<lambda>r. nd_Node r = n) (rows (nodeTable s))"

definition service_row :: "store \<Rightarrow> string \<Rightarrow> string \<Rightarrow> ServiceNode option" where
  "service_row s n i = find (\<lambda>r. sn_Node r = n \<and> sn_ServiceID r = i) (rows (serviceTable s))"

definition check_row :: "store \<Rightarrow> string \<Rightarrow> string \<Rightarrow> HealthCheck option" where
  "check_row s n c = find (\<lambda>r. hc_Node r = n \<and> hc_CheckID r = c) (rows (checkTable s))"

subsection \<open>Sessions\<close>

text \<open>The loop of lines 1119 to 1131: every listed check exists and is not critical.\<close>

fun verify_checks ::
  "string \<Rightarrow> string list \<Rightarrow> HealthCheck table \<Rightarrow> bool list \<Rightarrow> (error + unit) \<times> bool list" where
  "verify_checks node [] t flt = (Inr (), flt)"
| "verify_checks node (checkId # rest) t flt =
     (case GetTxn (\<lambda>r. hc_Node r = node \<and> hc_CheckID r = checkId) t flt of
        (Inl e, f) \<Rightarrow> (Inl e, f)
      | (Inr res, f) \<Rightarrow>
          (case res of
             [] \<Rightarrow> (Inl (MissingCheck checkId), f)
           | chk # _ \<Rightarrow>
               if hc_Status chk = HealthCritical
               then (Inl (CheckCritical checkId (hc_Status chk)), f)
               else verify_checks node rest t f))"

text \<open>
  The loop of lines 1135 to 1144. It looks the session ID up until no row has it; the ID is
  the same in every round, so the loop need not end: the result is \<open>None\<close> when it does not.
\<close>

partial_function (option) unique_id_loop ::
  "string \<Rightarrow> Session table \<Rightarrow> bool list \<Rightarrow> ((error + unit) \<times> bool list) option" where
  "unique_id_loop ident t flt =
     (case fst (GetTxn (\<lambda>r. ss_ID r = ident) t flt) of
        Inl e \<Rightarrow> Some (Inl e, snd (GetTxn (\<lambda>r. ss_ID r = ident) t flt))
      | Inr res \<Rightarrow>
          if length res = 0 then Some (Inr (), snd (GetTxn (\<lambda>r. ss_ID r = ident) t flt))
          else unique_id_loop ident t (snd (GetTxn (\<lambda>r. ss_ID r = ident) t flt)))"

text \<open>The loop of lines 1153 to 1158 (and 1193 to 1198): one sessionChecks row per check.\<close>

fun insert_checks ::
  "string \<Rightarrow> string \<Rightarrow> string list \<Rightarrow> sessionCheck table \<Rightarrow> bool list \<Rightarrow>
   (error + sessionCheck table) \<times> bool list" where
  "insert_checks node ident [] t flt = (Inr t, flt)"
| "insert_checks node ident (checkID # rest) t flt =
     (case InsertTxn (\<lambda>r. (sc_Node r, sc_CheckID r, sc_Session r))
             \<lparr>sc_Node = node, sc_CheckID = checkID, sc_Session = ident\<rparr> t flt of
        (Inl e, f) \<Rightarrow> (Inl e, f)
      | (Inr t1, f) \<Rightarrow> insert_checks node ident rest t1 f)"

text \<open>
  The part of \<^verbatim>\<open>SessionCreate\<close> after the loop, lines 1146 to 1171, which
  \<^verbatim>\<open>SessionRestore\<close> repeats (lines 1186 to 1212) with \<^verbatim>\<open>SetMaxLastIndexTxn\<close> in the
  place of \<^verbatim>\<open>SetLastIndexTxn\<close>: \<open>set_index\<close> is the one or the other.
\<close>

definition store_session ::
  "(64 word \<Rightarrow> Session table \<Rightarrow> bool list \<Rightarrow> (error + Session table) \<times> bool list) \<Rightarrow>
   (64 word \<Rightarrow> sessionCheck table \<Rightarrow> bool list \<Rightarrow> (error + sessionCheck table) \<times> bool list) \<Rightarrow>
   bool list \<Rightarrow> 64 word \<Rightarrow> Session \<Rightarrow> store \<Rightarrow> Session outcome" where
  "store_session set_index set_index' flt index session s =
     (case InsertTxn ss_ID session (sessionTable s) flt of
        (Inl e, _) \<Rightarrow> \<lparr>err = Some e, st = s, fired = [], val = session\<rparr>
      | (Inr t1, f1) \<Rightarrow>
     (case insert_checks (ss_Node session) (ss_ID session) (ss_Checks session)
             (sessionCheckTable s) f1 of
        (Inl e, _) \<Rightarrow> \<lparr>err = Some e, st = s, fired = [], val = session\<rparr>
      | (Inr c1, f2) \<Rightarrow>
     (case set_index index t1 f2 of
        (Inl e, _) \<Rightarrow> \<lparr>err = Some e, st = s, fired = [], val = session\<rparr>
      | (Inr t2, f3) \<Rightarrow>
     (case set_index' index c1 f3 of
        (Inl e, _) \<Rightarrow> \<lparr>err = Some e, st = s, fired = [dbSessions], val = session\<rparr>
      | (Inr c2, f4) \<Rightarrow>
     (case Commit f4 of
        (Inl e, _) \<Rightarrow>
          \<lparr>err = Some e, st = s, fired = [dbSessionChecks, dbSessions], val = session\<rparr>
      | (Inr _, _) \<Rightarrow>
          \<lparr>err = None, st = s\<lparr>sessionTable := t2, sessionCheckTable := c2\<rparr>,
           fired = [dbSessionChecks, dbSessions], val = session\<rparr>)))))"

text \<open>
  state_store.go, lines 1096 to 1172. \<open>uuid\<close> is what the one call of
  \<^verbatim>\<open>generateUUID()\<close> (line 1134) returns. The result is \<open>None\<close> when the method does not
  return.
\<close>

definition SessionCreate ::
  "bool list \<Rightarrow> string \<Rightarrow> 64 word \<Rightarrow> Session \<Rightarrow> store \<Rightarrow> Session outcome option" where
  "SessionCreate flt uuid index session0 s =
     (let session = session0\<lparr>ss_CreateIndex := index\<rparr> in
     (case StartTxn flt of
        (Inl e, _) \<Rightarrow> Some \<lparr>err = Some PanicStartTxn, st = s, fired = [], val = session\<rparr>
      | (Inr _, f1) \<Rightarrow>
     (case GetTxn (\<lambda>r. nd_Node r = ss_Node session) (nodeTable s) f1 of
        (Inl e, _) \<Rightarrow> Some \<lparr>err = Some e, st = s, fired = [], val = session\<rparr>
      | (Inr res, f2) \<Rightarrow>
        if length res = 0
        then Some \<lparr>err = Some MissingNode, st = s, fired = [], val = session\<rparr>
        else
     (case verify_checks (ss_Node session) (ss_Checks session) (checkTable s) f2 of
        (Inl e, _) \<Rightarrow> Some \<lparr>err = Some e, st = s, fired = [], val = session\<rparr>
      | (Inr _, f3) \<Rightarrow>
     (case unique_id_loop uuid (sessionTable s) f3 of
        None \<Rightarrow> None
      | Some (Inl e, _) \<Rightarrow>
          Some \<lparr>err = Some e, st = s, fired = [], val = session\<lparr>ss_ID := uuid\<rparr>\<rparr>
      | Some (Inr _, f4) \<Rightarrow>
          Some (store_session SetLastIndexTxn SetLastIndexTxn f4 index
                  (session\<lparr>ss_ID := uuid\<rparr>) s))))))"

text \<open>state_store.go, lines 1176 to 1213.\<close>

definition SessionRestore :: "bool list \<Rightarrow> Session \<Rightarrow> store \<Rightarrow> Session outcome" where
  "SessionRestore flt session s =
     (case StartTxn flt of
        (Inl e, _) \<Rightarrow> \<lparr>err = Some PanicStartTxn, st = s, fired = [], val = session\<rparr>
      | (Inr _, f1) \<Rightarrow>
          store_session SetMaxLastIndexTxn SetMaxLastIndexTxn f1 (ss_CreateIndex session)
            session s)"

text \<open>
  The precondition of \<^verbatim>\<open>SessionCreate\<close> in the words of the specification: the session is
  refused when its node is not registered, or a listed check has no checks row for the node,
  or a listed check is critical.
\<close>

definition check_refused :: "store \<Rightarrow> string \<Rightarrow> string \<Rightarrow> bool" where
  "check_refused s node c =
     (case check_row s node c of None \<Rightarrow> True | Some chk \<Rightarrow> hc_Status chk = ''critical'')"

definition session_refused :: "store \<Rightarrow> Session \<Rightarrow> bool" where
  "session_refused s session =
     (node_row s (ss_Node session) = None \<or>
      list_ex (check_refused s (ss_Node session)) (ss_Checks session))"

definition session_row :: "store \<Rightarrow> string \<Rightarrow> Session option" where
  "session_row s i = find (\<lambda>r. ss_ID r = i) (rows (sessionTable s))"

subsection \<open>Queries over services\<close>

text \<open>
  Modelled from the spec: \<^verbatim>\<open>LastIndexTxn\<close> of a group of tables is the maximum of their
  watermarks, and \<^verbatim>\<open>strContains\<close> (util.go) tells whether a string is in a list.
\<close>

definition LastIndexTxn :: "64 word list \<Rightarrow> bool list \<Rightarrow> (error + 64 word) \<times> bool list" where
  "LastIndexTxn marks flt = engine_op (fold max marks 0) flt"

definition strContains :: "string list \<Rightarrow> string \<Rightarrow> bool" where
  "strContains l s = (s \<in> set l)"

text \<open>The zero values of the records, which \<^verbatim>\<open>make\<close> fills a new slice with.\<close>

definition zero_Node :: Node where
  "zero_Node = \<lparr>nd_Node = [], nd_Address = []\<rparr>"

definition zero_ServiceNode :: ServiceNode where
  "zero_ServiceNode = \<lparr>sn_Node = [], sn_Address = [], sn_ServiceID = [], sn_ServiceName = [],
     sn_ServiceTags = [], sn_ServicePort = 0\<rparr>"

definition zero_NodeService :: NodeService where
  "zero_NodeService = \<lparr>ns_ID = [], ns_Service = [], ns_Tags = [], ns_Port = 0\<rparr>"

definition zero_CheckServiceNode :: CheckServiceNode where
  "zero_CheckServiceNode =
     \<lparr>csn_Node = zero_Node, csn_Service = zero_NodeService, csn_Checks = []\<rparr>"

text \<open>
  state_store.go, lines 587 to 598. The loop keeps \<open>i\<close> and \<open>n\<close>; a row without the tag is
  overwritten by the row at \<open>n - 1\<close> and \<open>n\<close> is decremented (the \<^verbatim>\<open>i--\<close> of the body and
  the \<^verbatim>\<open>i++\<close> of the loop cancel). The \<^verbatim>\<open>nil\<close> the source stores at \<open>n - 1\<close> lies beyond
  the result \<^verbatim>\<open>l[:n]\<close>.
\<close>

function serviceTagFilter_loop ::
  "ServiceNode list \<Rightarrow> string \<Rightarrow> nat \<Rightarrow> nat \<Rightarrow> ServiceNode list" where
  "serviceTagFilter_loop l tag i n =
     (if i < n then
        (if \<not> strContains (sn_ServiceTags (l ! i)) tag
         then serviceTagFilter_loop (l[i := l ! (n - 1)]) tag i (n - 1)
         else serviceTagFilter_loop l tag (i + 1) n)
      else take n l)"
  by pat_completeness auto
termination
  by (relation "measure (\<lambda>(l, tag, i, n). n - i)") auto

declare serviceTagFilter_loop.simps [simp del]

definition serviceTagFilter :: "ServiceNode list \<Rightarrow> string \<Rightarrow> ServiceNode list" where
  "serviceTagFilter l tag = serviceTagFilter_loop l tag 0 (length l)"

text \<open>
  The loop of \<^verbatim>\<open>parseServiceNodes\<close>, lines 608 to 620: the element of a row whose node
  lookup fails, or does not return exactly one row, stays the zero value.
\<close>

fun parseServiceNodes_loop ::
  "Node table \<Rightarrow> ServiceNode list \<Rightarrow> bool list \<Rightarrow> ServiceNode list \<times> bool list" where
  "parseServiceNodes_loop t [] flt = ([], flt)"
| "parseServiceNodes_loop t (srv # rest) flt =
     (case GetTxn (\<lambda>r. nd_Node r = sn_Node srv) t flt of (nodeRes, f) \<Rightarrow>
      case parseServiceNodes_loop t rest f of (nodes, f') \<Rightarrow>
        ((case nodeRes of
            Inl e \<Rightarrow> zero_ServiceNode
          | Inr rs \<Rightarrow>
              (if length rs \<noteq> 1 then zero_ServiceNode
               else srv\<lparr>sn_Address := nd_Address (hd rs)\<rparr>)) # nodes, f'))"

text \<open>state_store.go, lines 601 to 623.\<close>

definition parseServiceNodes ::
  "Node table \<Rightarrow> ServiceNode list \<Rightarrow> error option \<Rightarrow> bool list \<Rightarrow> ServiceNode list" where
  "parseServiceNodes t res e flt =
     (if e \<noteq> None then replicate (length res) zero_ServiceNode
      else fst (parseServiceNodes_loop t res flt))"

text \<open>
  state_store.go, lines 549 to 564 and 567 to 583. A failed lookup returns no rows with its
  error.
\<close>

definition ServiceNodes ::
  "bool list \<Rightarrow> string \<Rightarrow> store \<Rightarrow> error + 64 word \<times> ServiceNode list" where
  "ServiceNodes flt service s =
     (case StartTxn flt of
        (Inl e, _) \<Rightarrow> Inl PanicStartTxn
      | (Inr _, f1) \<Rightarrow>
     (case LastIndexTxn [lastIndex (nodeTable s), lastIndex (serviceTable s)] f1 of
        (Inl e, _) \<Rightarrow> Inl PanicLastIndex
      | (Inr idx, f2) \<Rightarrow>
     (case GetTxn (\<lambda>r. sn_ServiceName r = service) (serviceTable s) f2 of
        (Inl e, f3) \<Rightarrow> Inr (idx, parseServiceNodes (nodeTable s) [] (Some e) f3)
      | (Inr res, f3) \<Rightarrow> Inr (idx, parseServiceNodes (nodeTable s) res None f3))))"

definition ServiceTagNodes ::
  "bool list \<Rightarrow> string \<Rightarrow> string \<Rightarrow> store \<Rightarrow> error + 64 word \<times> ServiceNode list" where
  "ServiceTagNodes flt service tag s =
     (case StartTxn flt of
        (Inl e, _) \<Rightarrow> Inl PanicStartTxn
      | (Inr _, f1) \<Rightarrow>
     (case LastIndexTxn [lastIndex (nodeTable s), lastIndex (serviceTable s)] f1 of
        (Inl e, _) \<Rightarrow> Inl PanicLastIndex
      | (Inr idx, f2) \<Rightarrow>
     (case GetTxn (\<lambda>r. sn_ServiceName r = service) (serviceTable s) f2 of
        (Inl e, f3) \<Rightarrow>
          Inr (idx, parseServiceNodes (nodeTable s) (serviceTagFilter [] tag) (Some e) f3)
      | (Inr res, f3) \<Rightarrow>
          Inr (idx, parseServiceNodes (nodeTable s) (serviceTagFilter res tag) None f3))))"

text \<open>
  state_store.go, lines 710 to 720. A \<^verbatim>\<open>*structs.HealthCheck\<close> of the result is \<open>None\<close> when
  it is \<^verbatim>\<open>nil\<close>.
\<close>

definition parseHealthChecks ::
  "64 word \<Rightarrow> HealthCheck list \<Rightarrow> error option \<Rightarrow> 64 word \<times> HealthCheck option list" where
  "parseHealthChecks idx res e =
     (if e \<noteq> None then (idx, replicate (length res) None) else (idx, map Some res))"

text \<open>The lookup of checks by the \<^verbatim>\<open>node\<close> index followed by \<^verbatim>\<open>parseHealthChecks\<close>.\<close>

definition node_checks ::
  "HealthCheck table \<Rightarrow> string \<Rightarrow> string \<Rightarrow> bool list \<Rightarrow> HealthCheck option list \<times> bool list"
  where
  "node_checks t node ident flt =
     (case GetTxn (\<lambda>r. hc_Node r = node \<and> hc_ServiceID r = ident) t flt of
        (Inl e, f) \<Rightarrow> (snd (parseHealthChecks 0 [] (Some e)), f)
      | (Inr res, f) \<Rightarrow> (snd (parseHealthChecks 0 res None), f))"

text \<open>The loop of \<^verbatim>\<open>parseCheckServiceNodes\<close>, lines 769 to 797.\<close>

fun parseCheckServiceNodes_loop ::
  "store \<Rightarrow> ServiceNode list \<Rightarrow> bool list \<Rightarrow> CheckServiceNode list \<times> bool list" where
  "parseCheckServiceNodes_loop s [] flt = ([], flt)"
| "parseCheckServiceNodes_loop s (srv # rest) flt =
     (case GetTxn (\<lambda>r. nd_Node r = sn_Node srv) (nodeTable s) flt of (nodeRes, f1) \<Rightarrow>
      case (case nodeRes of
              Inl e \<Rightarrow> (zero_CheckServiceNode, f1)
            | Inr rs \<Rightarrow>
                if length rs \<noteq> 1 then (zero_CheckServiceNode, f1)
                else
                  (case node_checks (checkTable s) (sn_Node srv) (sn_ServiceID srv) f1 of
                     (checks, f2) \<Rightarrow>
                   case node_checks (checkTable s) (sn_Node srv) [] f2 of
                     (nodeChecks, f3) \<Rightarrow>
                       (\<lparr>csn_Node = hd rs,
                         csn_Service = \<lparr>ns_ID = sn_ServiceID srv, ns_Service = sn_ServiceName srv,
                            ns_Tags = sn_ServiceTags srv, ns_Port = sn_ServicePort srv\<rparr>,
                         csn_Checks = checks @ nodeChecks\<rparr>, f3))) of (node, f4) \<Rightarrow>
      case parseCheckServiceNodes_loop s rest f4 of (nodes, f5) \<Rightarrow> (node # nodes, f5))"

text \<open>state_store.go, lines 762 to 800.\<close>

definition parseCheckServiceNodes ::
  "store \<Rightarrow> ServiceNode list \<Rightarrow> error option \<Rightarrow> bool list \<Rightarrow> CheckServiceNode list" where
  "parseCheckServiceNodes s res e flt =
     (if e \<noteq> None then replicate (length res) zero_CheckServiceNode
      else fst (parseCheckServiceNodes_loop s res flt))"

text \<open>state_store.go, lines 724 to 739 and 743 to 759.\<close>

definition CheckServiceNodes ::
  "bool list \<Rightarrow> string \<Rightarrow> store \<Rightarrow> error + 64 word \<times> CheckServiceNode list" where
  "CheckServiceNodes flt service s =
     (case StartTxn flt of
        (Inl e, _) \<Rightarrow> Inl PanicStartTxn
      | (Inr _, f1) \<Rightarrow>
     (case LastIndexTxn [lastIndex (nodeTable s), lastIndex (serviceTable s),
             lastIndex (checkTable s)] f1 of
        (Inl e, _) \<Rightarrow> Inl PanicLastIndex
      | (Inr idx, f2) \<Rightarrow>
     (case GetTxn (\<lambda>r. sn_ServiceName r = service) (serviceTable s) f2 of
        (Inl e, f3) \<Rightarrow> Inr (idx, parseCheckServiceNodes s [] (Some e) f3)
      | (Inr res, f3) \<Rightarrow> Inr (idx, parseCheckServiceNodes s res None f3))))"

definition CheckServiceTagNodes ::
  "bool list \<Rightarrow> string \<Rightarrow> string \<Rightarrow> store \<Rightarrow> error + 64 word \<times> CheckServiceNode list" where
  "CheckServiceTagNodes flt service tag s =
     (case StartTxn flt of
        (Inl e, _) \<Rightarrow> Inl PanicStartTxn
      | (Inr _, f1) \<Rightarrow>
     (case LastIndexTxn [lastIndex (nodeTable s), lastIndex (serviceTable s),
             lastIndex (checkTable s)] f1 of
        (Inl e, _) \<Rightarrow> Inl PanicLastIndex
      | (Inr idx, f2) \<Rightarrow>
     (case GetTxn (\<lambda>r. sn_ServiceName r = service) (serviceTable s) f2 of
        (Inl e, f3) \<Rightarrow>
          Inr (idx, parseCheckServiceNodes s (serviceTagFilter [] tag) (Some e) f3)
      | (Inr res, f3) \<Rightarrow>
          Inr (idx, parseCheckServiceNodes s (serviceTagFilter res tag) None f3))))"

text \<open>
  The service rows a query joins: those of the service, and among them those that carry the
  tag.
\<close>

definition service_rows :: "store \<Rightarrow> string \<Rightarrow> ServiceNode list" where
  "service_rows s service = filter (\<lambda>r. sn_ServiceName r = service) (rows (serviceTable s))"

definition tagged :: "string \<Rightarrow> ServiceNode \<Rightarrow> bool" where
  "tagged tag r = strContains (sn_ServiceTags r) tag"

text \<open>
  The operations of a query before its join: \<^verbatim>\<open>StartTxn\<close>, \<^verbatim>\<open>LastIndexTxn\<close> and the
  lookup of the service rows. \<open>scan_ok\<close> says that none of the three fails.
\<close>

definition scan_ok :: "bool list \<Rightarrow> bool" where
  "scan_ok flt = (\<not> fails flt \<and> \<not> fails (tl flt) \<and> \<not> fails (tl (tl flt)))"

text \<open>
  What a query returns for the service rows \<open>matched\<close>: one element for each row, in their
  order, and the zero value \<open>zero\<close> where the node of the row has no nodes row.
\<close>

definition joined :: "store \<Rightarrow> ServiceNode list \<Rightarrow> 'a \<Rightarrow> 'a list \<Rightarrow> bool" where
  "joined s matched zero nodes =
     (length nodes = length matched \<and>
      (\<forall>i < length matched. node_row s (sn_Node (matched ! i)) = None \<longrightarrow> nodes ! i = zero))"

subsection \<open>KVSListKeys\<close>

text \<open>
  \<^verbatim>\<open>strings.Index(s, sep)\<close> of the Go library: the index of the first instance of \<open>sep\<close> in
  \<open>s\<close>, \<open>None\<close> for the result -1.
\<close>

fun strings_Index :: "string \<Rightarrow> string \<Rightarrow> nat option" where
  "strings_Index [] sep = (if sep = [] then Some 0 else None)"
| "strings_Index (c # t) sep =
     (if prefix sep (c # t) then Some 0 else map_option Suc (strings_Index t sep))"

text \<open>
  Modelled from the spec: \<^verbatim>\<open>StreamTxn\<close> delivers the rows whose index key begins with the
  parts, in ascending key order, and closes the channel; when it fails it delivers nothing.
\<close>

definition StreamTxn ::
  "('r \<Rightarrow> bool) \<Rightarrow> 'r table \<Rightarrow> bool list \<Rightarrow> (error + 'r list) \<times> bool list" where
  "StreamTxn match t flt = engine_op (filter match (rows t)) flt"

text \<open>
  The goroutine of \<^verbatim>\<open>KVSListKeys\<close>, lines 976 to 1002, over the entries the channel
  delivers, with its variables \<^verbatim>\<open>keys\<close> and \<^verbatim>\<open>last\<close> (here \<open>last_sep\<close>). The slice expression
  \<^verbatim>\<open>ent.Key[prefixLen:]\<close> panics on a key shorter than the prefix.
\<close>

fun listKeys_loop ::
  "nat \<Rightarrow> string \<Rightarrow> DirEntry list \<Rightarrow> string list \<Rightarrow> string \<Rightarrow> error + string list" where
  "listKeys_loop prefixLen seperator [] keys last_sep = Inr keys"
| "listKeys_loop prefixLen seperator (ent # rest) keys last_sep =
     (if length (Key ent) < prefixLen then Inl PanicSliceBounds
      else
        if length seperator = 0
        then listKeys_loop prefixLen seperator rest (keys @ [Key ent]) last_sep
        else
          (case strings_Index (drop prefixLen (Key ent)) seperator of
             Some idx \<Rightarrow>
               if last_sep \<noteq> take (prefixLen + idx + length seperator) (Key ent)
               then listKeys_loop prefixLen seperator rest
                      (keys @ [take (prefixLen + idx + length seperator) (Key ent)])
                      (take (prefixLen + idx + length seperator) (Key ent))
               else listKeys_loop prefixLen seperator rest keys last_sep
           | None \<Rightarrow> listKeys_loop prefixLen seperator rest (keys @ [Key ent]) last_sep))"

text \<open>
  state_store.go, lines 960 to 1008. The result is the triple the method returns, or the
  panic of the goroutine.
\<close>

definition KVSListKeys ::
  "bool list \<Rightarrow> string \<Rightarrow> string \<Rightarrow> store \<Rightarrow> error + 64 word \<times> string list \<times> error option"
  where
  "KVSListKeys flt pfx seperator s =
     (case StartTxn flt of
        (Inl e, _) \<Rightarrow> Inr (0, [], Some e)
      | (Inr _, f1) \<Rightarrow>
     (case LastIndexTxn [lastIndex (kvsTable s)] f1 of
        (Inl e, _) \<Rightarrow> Inr (0, [], Some e)
      | (Inr idx, f2) \<Rightarrow>
     (case StreamTxn (kvs_match ''id_prefix'' [pfx]) (kvsTable s) f2 of
        (Inl e, _) \<Rightarrow>
          (case listKeys_loop (length pfx) seperator [] [] [] of
             Inl p \<Rightarrow> Inl p
           | Inr keys \<Rightarrow> Inr (idx, keys, Some e))
      | (Inr stream, _) \<Rightarrow>
          (case listKeys_loop (length pfx) seperator stream [] [] of
             Inl p \<Rightarrow> Inl p
           | Inr keys \<Rightarrow> Inr (idx, keys, None)))))"

text \<open>
  The listing in the words of the specification: a key is cut after the first seperator
  found behind the prefix, and is kept whole when there is none or when the seperator is
  empty; equal neighbours are listed once.
\<close>

definition truncate_key :: "nat \<Rightarrow> string \<Rightarrow> string \<Rightarrow> string" where
  "truncate_key prefixLen seperator k =
     (if seperator = [] then k
      else case strings_Index (drop prefixLen k) seperator of
             Some idx \<Rightarrow> take (prefixLen + idx + length seperator) k
           | None \<Rightarrow> k)"

definition matching_keys :: "store \<Rightarrow> string \<Rightarrow> string list" where
  "matching_keys s pfx = filter (prefix pfx) (map Key (rows (kvsTable s)))"

definition listed_keys :: "store \<Rightarrow> string \<Rightarrow> string \<Rightarrow> string list" where
  "listed_keys s pfx seperator =
     remdups_adj (map (truncate_key (length pfx) seperator) (matching_keys s pfx))"

text \<open>The rows of the kvs table are in ascending order of their keys, one row for a key.\<close>

definition kvs_ordered :: "store \<Rightarrow> bool" where
  "kvs_ordered s = sorted_wrt (<) (map Key (rows (kvsTable s)))"

text \<open>
  What the loop appends to \<^verbatim>\<open>keys\<close> for the keys of a stream, and the cut of the part of a
  key behind the prefix.
\<close>

fun emitted :: "nat \<Rightarrow> string \<Rightarrow> string \<Rightarrow> string list \<Rightarrow> string list" where
  "emitted prefixLen seperator last_sep [] = []"
| "emitted prefixLen seperator last_sep (k # ks) =
     (if seperator = [] then k # emitted prefixLen seperator last_sep ks
      else
        (case strings_Index (drop prefixLen k) seperator of
           Some idx \<Rightarrow>
             if last_sep \<noteq> take (prefixLen + idx + length seperator) k
             then take (prefixLen + idx + length seperator) k #
                  emitted prefixLen seperator (take (prefixLen + idx + length seperator) k) ks
             else emitted prefixLen seperator last_sep ks
         | None \<Rightarrow> k # emitted prefixLen seperator last_sep ks))"

definition has_sep :: "string \<Rightarrow> string \<Rightarrow> bool" where
  "has_sep sep a = (strings_Index a sep \<noteq> None)"

fun cut_after :: "string \<Rightarrow> string \<Rightarrow> string" where
  "cut_after seperator [] = []"
| "cut_after seperator (c # t) =
     (if prefix seperator (c # t) then seperator else c # cut_after seperator t)"



subsection \<open>Concrete stores and entries\<close>

definition entry_c :: DirEntry where
  "entry_c = \<lparr>CreateIndex = 0, ModifyIndex = 0, Key = ''c'', Flags = 0, Value = ''''\<rparr>"

definition store_c :: store where
  "store_c = empty_store\<lparr>kvsTable :=
     \<lparr>rows = [entry_c\<lparr>CreateIndex := 20, ModifyIndex := 20\<rparr>], lastIndex = 20\<rparr>\<rparr>"

subsection \<open>Sequences of writes to the KV table\<close>

text \<open>
  A write is a call of \<^verbatim>\<open>KVSSet\<close> or of \<^verbatim>\<open>KVSCheckAndSet\<close>, with the script of its
  table failures. It takes effect when it commits: \<^verbatim>\<open>KVSSet\<close> returns no error,
  \<^verbatim>\<open>KVSCheckAndSet\<close> returns true and no error. \<open>run_writes k\<close> applies the writes in
  order and collects the indexes of those that took effect on key \<open>k\<close>.
\<close>

datatype kv_write =
    Write_Set "bool list" "64 word" DirEntry
  | Write_CAS "bool list" "64 word" DirEntry

fun write_key :: "kv_write \<Rightarrow> string" where
  "write_key (Write_Set flt i d) = Key d"
| "write_key (Write_CAS flt i d) = Key d"

fun write_index :: "kv_write \<Rightarrow> 64 word" where
  "write_index (Write_Set flt i d) = i"
| "write_index (Write_CAS flt i d) = i"

fun apply_write :: "kv_write \<Rightarrow> store \<Rightarrow> bool \<times> store" where
  "apply_write (Write_Set flt i d) s =
     (err (KVSSet flt i d s) = None, st (KVSSet flt i d s))"
| "apply_write (Write_CAS flt i d) s =
     (fst (val (KVSCheckAndSet flt i d s)) \<and> err (KVSCheckAndSet flt i d s) = None,
      st (KVSCheckAndSet flt i d s))"

fun run_writes :: "string \<Rightarrow> kv_write list \<Rightarrow> store \<Rightarrow> 64 word list \<times> store" where
  "run_writes k [] s = ([], s)"
| "run_writes k (w # ws) s =
     (case apply_write w s of (eff, s1) \<Rightarrow>
      case run_writes k ws s1 of (ixs, s2) \<Rightarrow>
        (if eff \<and> write_key w = k then write_index w # ixs else ixs, s2))"

text \<open>
  The entry a write stores: the argument with the indexes the source assigns to it, and the
  store after a write that took effect.
\<close>

definition stamped :: "store \<Rightarrow> 64 word \<Rightarrow> DirEntry \<Rightarrow> DirEntry" where
  "stamped s i d = d\<lparr>CreateIndex := (case kvs_entry s (Key d) of None \<Rightarrow> i | Some e \<Rightarrow> CreateIndex e),
      ModifyIndex := i\<rparr>"

definition written :: "store \<Rightarrow> 64 word \<Rightarrow> DirEntry \<Rightarrow> store" where
  "written s i d = s\<lparr>kvsTable := \<lparr>rows = upsert Key (stamped s i d) (rows (kvsTable s)), lastIndex = i\<rparr>\<rparr>"

definition entry_ab :: "string \<Rightarrow> DirEntry" where
  "entry_ab v = \<lparr>CreateIndex = 0, ModifyIndex = 0, Key = ''a/b'', Flags = 0, Value = v\<rparr>"

definition writes_ab :: "kv_write list" where
  "writes_ab = [Write_Set [] 10 (entry_ab ''v1''), Write_CAS [] 11 ((entry_ab ''v2'')\<lparr>ModifyIndex := 10\<rparr>),
     Write_Set [] 12 (entry_ab ''v3'')]"

text \<open>
  Node \<^verbatim>\<open>n1\<close> at 10.0.0.1 with service \<^verbatim>\<open>web\<close> on port 80 and the passing check
  \<^verbatim>\<open>web-ping\<close> of that service.
\<close>

definition node_n1 :: Node where
  "node_n1 = \<lparr>nd_Node = ''n1'', nd_Address = ''10.0.0.1''\<rparr>"

definition service_web :: ServiceNode where
  "service_web = \<lparr>sn_Node = ''n1'', sn_Address = '''', sn_ServiceID = ''web'',
     sn_ServiceName = ''web'', sn_ServiceTags = [''master''], sn_ServicePort = 80\<rparr>"

definition check_web :: HealthCheck where
  "check_web = \<lparr>hc_Node = ''n1'', hc_CheckID = ''web-ping'', hc_Name = ''ping'',
     hc_Status = ''passing'', hc_Notes = '''', hc_ServiceID = ''web'', hc_ServiceName = ''web''\<rparr>"

definition store_web :: store where
  "store_web = empty_store\<lparr>
     nodeTable := \<lparr>rows = [node_n1], lastIndex = 1\<rparr>,
     serviceTable := \<lparr>rows = [service_web], lastIndex = 2\<rparr>,
     checkTable := \<lparr>rows = [check_web], lastIndex = 3\<rparr>\<rparr>"

definition check_new :: HealthCheck where
  "check_new = \<lparr>hc_Node = ''n1'', hc_CheckID = ''db-ping'', hc_Name = ''ping'',
     hc_Status = [], hc_Notes = [], hc_ServiceID = ''web'', hc_ServiceName = ''other''\<rparr>"

text \<open>
  A store with node \<^verbatim>\<open>n1\<close>, its checks \<^verbatim>\<open>c1\<close> (warning) and \<^verbatim>\<open>c2\<close> (critical), and one
  session with ID \<^verbatim>\<open>u1\<close>.
\<close>

definition check_c :: "string \<Rightarrow> string \<Rightarrow> HealthCheck" where
  "check_c c status = \<lparr>hc_Node = ''n1'', hc_CheckID = c, hc_Name = [], hc_Status = status,
     hc_Notes = [], hc_ServiceID = [], hc_ServiceName = []\<rparr>"

definition session_on :: "string list \<Rightarrow> Session" where
  "session_on cs = \<lparr>ss_CreateIndex = 0, ss_ID = [], ss_Name = ''lock'', ss_Node = ''n1'',
     ss_Checks = cs\<rparr>"

definition store_sess :: store where
  "store_sess = empty_store\<lparr>
     nodeTable := \<lparr>rows = [node_n1], lastIndex = 1\<rparr>,
     checkTable := \<lparr>rows = [check_c ''c1'' ''warning'', check_c ''c2'' ''critical''],
                    lastIndex = 3\<rparr>,
     sessionTable := \<lparr>rows = [(session_on [])\<lparr>ss_CreateIndex := 4, ss_ID := ''u1''\<rparr>],
                      lastIndex = 4\<rparr>\<rparr>"

definition entry_old :: DirEntry where
  "entry_old = \<lparr>CreateIndex = 5, ModifyIndex = 5, Key = ''a'', Flags = 0, Value = ''v''\<rparr>"

text \<open>The store of \<^verbatim>\<open>n1\<close> with one more row of service \<^verbatim>\<open>web\<close>, on a node without a nodes row.\<close>

definition store_orphan :: store where
  "store_orphan = store_web\<lparr>serviceTable :=
     \<lparr>rows = [service_web, service_web\<lparr>sn_Node := ''n2'', sn_ServiceTags := []\<rparr>],
      lastIndex = 6\<rparr>\<rparr>"

text \<open>The keys of the example of the specification.\<close>

definition entry_k :: "string \<Rightarrow> DirEntry" where
  "entry_k k = \<lparr>CreateIndex = 1, ModifyIndex = 1, Key = k, Flags = 0, Value = []\<rparr>"

definition store_foo :: store where
  "store_foo = empty_store\<lparr>kvsTable :=
     \<lparr>rows = map entry_k [''foo/a'', ''foo/a/b'', ''foo/a/c'', ''foo/b'', ''foo/b/d''],
      lastIndex = 9\<rparr>\<rparr>"

section \<open>Properties\<close>

subsection \<open>Facts about the engine\<close>

lemma nofault_fails: "nofault flt \<Longrightarrow> \<not> fails flt"
  by (cases flt) (auto simp: fails_def nofault_def)

lemma nofault_tl: "nofault flt \<Longrightarrow> nofault (tl flt)"
  by (cases flt) (auto simp: nofault_def)

lemma fails_fault: "fails flt \<Longrightarrow> \<not> nofault flt"
  using nofault_fails by blast

lemma tl_fault: "\<not> nofault (tl flt) \<Longrightarrow> \<not> nofault flt"
  using nofault_tl by blast

lemmas table_ops = StartTxn_def Commit_def GetTxn_def InsertTxn_def DeleteTxn_def
  SetLastIndexTxn_def SetMaxLastIndexTxn_def engine_op_def

lemma nofault_Nil: "nofault []"
  by (simp add: nofault_def)

lemma first_match: "(case filter P xs of [] \<Rightarrow> a | r # _ \<Rightarrow> b r) = (case find P xs of None \<Rightarrow> a | Some r \<Rightarrow> b r)"
  by (induction xs) auto


subsection \<open>Check-and-set\<close>

lemma KVSCheckAndSet_true_allowed:
  "fst (val (KVSCheckAndSet flt index d s)) \<Longrightarrow> cas_allowed s d"
  by (auto simp: KVSCheckAndSet_def table_ops cas_allowed_def kvs_entry_def Let_def first_match
      word_gt_0 split: if_splits option.splits)

lemma KVSCheckAndSet_allowed_true:
  "nofault flt \<Longrightarrow> cas_allowed s d \<Longrightarrow> fst (val (KVSCheckAndSet flt index d s))"
  by (auto simp: KVSCheckAndSet_def table_ops cas_allowed_def kvs_entry_def Let_def first_match
      nofault_fails nofault_tl split: option.splits)

lemma KVSCheckAndSet_refused:
  "\<not> cas_allowed s d \<Longrightarrow>
     st (KVSCheckAndSet flt index d s) = s \<and> fired (KVSCheckAndSet flt index d s) = [] \<and>
     val (KVSCheckAndSet flt index d s) = (False, d)"
  by (auto simp: KVSCheckAndSet_def table_ops cas_allowed_def kvs_entry_def Let_def first_match
      word_gt_0 split: if_splits option.splits)

lemma KVSCheckAndSet_refused_nil:
  "\<not> cas_allowed s d \<Longrightarrow> nofault flt \<Longrightarrow> err (KVSCheckAndSet flt index d s) = None"
  by (auto simp: KVSCheckAndSet_def table_ops cas_allowed_def kvs_entry_def Let_def first_match
      nofault_fails nofault_tl word_gt_0 split: option.splits)

lemma KVSCheckAndSet_error:
  "err (KVSCheckAndSet flt index d s) = Some e \<Longrightarrow> e = TableError \<and> \<not> nofault flt"
  by (auto simp: KVSCheckAndSet_def table_ops Let_def
      split: if_splits dest!: fails_fault tl_fault)

text \<open>
  C1. \<^verbatim>\<open>KVSCheckAndSet(index, entry)\<close> returns true exactly when either
  \<^verbatim>\<open>entry.ModifyIndex == 0\<close> and no entry is stored under the key, or
  \<^verbatim>\<open>entry.ModifyIndex > 0\<close> and the stored entry has that very ModifyIndex
  (\<open>cas_allowed\<close>). Whenever it returns true the condition holds; and when the condition
  holds it returns true, unless an operation of the table fails on the way.
\<close>

theorem KVSCheckAndSet_succeeds_iff:
  "(fst (val (KVSCheckAndSet flt index d s)) \<longrightarrow> cas_allowed s d) \<and>
   (nofault flt \<longrightarrow> cas_allowed s d \<longrightarrow> fst (val (KVSCheckAndSet flt index d s)))"
  using KVSCheckAndSet_true_allowed KVSCheckAndSet_allowed_true by blast

theorem KVSCheckAndSet_succeeds_iff_witness:
  "nofault [] \<and> cas_allowed empty_store entry_c \<and>
   fst (val (KVSCheckAndSet [] 20 entry_c empty_store))"
  using KVSCheckAndSet_succeeds_iff [of "[]" 20 entry_c empty_store]
  by (simp add: nofault_def cas_allowed_def kvs_entry_def empty_store_def empty_table_def
      entry_c_def)

text \<open>
  C5. When the precondition of \<^verbatim>\<open>KVSCheckAndSet\<close> fails, the store, the watermark of kvs
  included, is what it was, no notification fires, the entry is not touched and the boolean is
  false; the error is \<^verbatim>\<open>nil\<close> when no table operation failed. An error is returned only
  when a table operation failed.
\<close>

theorem KVSCheckAndSet_precondition_failure:
  "(\<not> cas_allowed s d \<longrightarrow>
      st (KVSCheckAndSet flt index d s) = s \<and>
      fired (KVSCheckAndSet flt index d s) = [] \<and>
      val (KVSCheckAndSet flt index d s) = (False, d) \<and>
      (nofault flt \<longrightarrow> err (KVSCheckAndSet flt index d s) = None)) \<and>
   (\<forall>e. err (KVSCheckAndSet flt index d s) = Some e \<longrightarrow> e = TableError \<and> \<not> nofault flt)"
  using KVSCheckAndSet_refused KVSCheckAndSet_refused_nil KVSCheckAndSet_error by blast

theorem KVSCheckAndSet_precondition_failure_witness:
  "\<not> cas_allowed store_c entry_c \<and> nofault [] \<and>
   KVSCheckAndSet [] 21 entry_c store_c =
     \<lparr>err = None, st = store_c, fired = [], val = (False, entry_c)\<rparr>"
  using KVSCheckAndSet_precondition_failure [of store_c entry_c "[]" 21]
  by (simp add: nofault_def cas_allowed_def kvs_entry_def store_c_def entry_c_def
      empty_store_def empty_table_def)

subsection \<open>CreateIndex and ModifyIndex\<close>

lemma filter_insort_fresh:
  "\<forall>y \<in> set ys. \<not> P y \<Longrightarrow> filter P (insort_key f x ys) = (if P x then [x] else [])"
  by (induction ys) auto

lemma find_filter: "find P xs = (case filter P xs of [] \<Rightarrow> None | x # _ \<Rightarrow> Some x)"
  by (induction xs) auto

lemma filter_upsert_same: "filter (\<lambda>r. key r = key d) (upsert key d rs) = [d]"
  unfolding upsert_def by (subst filter_insort_fresh) auto

lemma find_upsert_same: "find (\<lambda>r. key r = key d) (upsert key d rs) = Some d"
  by (simp add: find_filter filter_upsert_same)

lemma filter_upsert_other:
  "key d \<noteq> k \<Longrightarrow> filter (\<lambda>r. key r = k) (upsert key d rs) = filter (\<lambda>r. key r = k) rs"
  unfolding upsert_def by (auto simp add: filter_insort_triv intro: filter_cong)

lemma find_upsert_other:
  "key d \<noteq> k \<Longrightarrow> find (\<lambda>r. key r = k) (upsert key d rs) = find (\<lambda>r. key r = k) rs"
  by (simp add: find_filter filter_upsert_other)

lemma KVSSet_cases:
  "(err (KVSSet flt i d s) \<noteq> None \<and> st (KVSSet flt i d s) = s) \<or>
   (err (KVSSet flt i d s) = None \<and>
    st (KVSSet flt i d s) = s\<lparr>kvsTable := \<lparr>rows = upsert Key (stamped s i d) (rows (kvsTable s)), lastIndex = i\<rparr>\<rparr>)"
  by (auto simp: KVSSet_def table_ops Let_def first_match kvs_entry_def stamped_def split: option.splits)

lemma KVSCheckAndSet_cases:
  "(\<not> (fst (val (KVSCheckAndSet flt i d s)) \<and> err (KVSCheckAndSet flt i d s) = None) \<and> st (KVSCheckAndSet flt i d s) = s) \<or>
   (fst (val (KVSCheckAndSet flt i d s)) \<and> err (KVSCheckAndSet flt i d s) = None \<and>
    st (KVSCheckAndSet flt i d s) = s\<lparr>kvsTable := \<lparr>rows = upsert Key (stamped s i d) (rows (kvsTable s)), lastIndex = i\<rparr>\<rparr>)"
  by (auto simp: KVSCheckAndSet_def table_ops Let_def first_match kvs_entry_def stamped_def split: option.splits)


lemma kvs_entry_written_same: "kvs_entry (written s i d) (Key d) = Some (stamped s i d)"
  using find_upsert_same [of Key "stamped s i d" "rows (kvsTable s)"]
  by (simp add: written_def kvs_entry_def stamped_def)

lemma kvs_entry_written_other: "Key d \<noteq> k \<Longrightarrow> kvs_entry (written s i d) k = kvs_entry s k"
  using find_upsert_other [of Key "stamped s i d" k "rows (kvsTable s)"]
  by (simp add: written_def kvs_entry_def stamped_def)

lemma apply_write_cases:
  "apply_write w s = (False, s) \<or>
   (\<exists>d. Key d = write_key w \<and> apply_write w s = (True, written s (write_index w) d))"
proof (cases w)
  case (Write_Set flt i d)
  then show ?thesis using KVSSet_cases [of flt i d s] by (auto simp: written_def)
next
  case (Write_CAS flt i d)
  then show ?thesis using KVSCheckAndSet_cases [of flt i d s] by (auto simp: written_def)
qed

lemma run_writes_entry:
  "run_writes k ws s = (ixs, s') \<Longrightarrow>
     (ixs = [] \<longrightarrow> kvs_entry s' k = kvs_entry s k) \<and>
     (ixs \<noteq> [] \<longrightarrow> (\<exists>e. kvs_entry s' k = Some e \<and>
         CreateIndex e = (case kvs_entry s k of None \<Rightarrow> hd ixs | Some e0 \<Rightarrow> CreateIndex e0) \<and>
         ModifyIndex e = last ixs))"
proof (induction ws arbitrary: s ixs s')
  case Nil
  then show ?case by simp
next
  case (Cons w ws)
  obtain eff s1 where w: "apply_write w s = (eff, s1)" by (cases "apply_write w s")
  obtain js s2 where r: "run_writes k ws s1 = (js, s2)" by (cases "run_writes k ws s1")
  from Cons.prems w r have ixs: "ixs = (if eff \<and> write_key w = k then write_index w # js else js)"
    and s2: "s' = s2" by auto
  note IH = Cons.IH [OF r]
  consider (skip) "\<not> eff" "s1 = s"
    | (other) d where eff "Key d = write_key w" "write_key w \<noteq> k" "s1 = written s (write_index w) d"
    | (hit) d where eff "Key d = k" "write_key w = k" "s1 = written s (write_index w) d"
    using apply_write_cases [of w s] w by (cases "write_key w = k") auto
  then show ?case
  proof cases
    case skip
    with IH ixs s2 show ?thesis by (auto split: option.splits)
  next
    case other
    with IH ixs s2 show ?thesis by (auto simp: kvs_entry_written_other split: option.splits)
  next
    case hit
    have e1: "kvs_entry s1 k = Some (stamped s (write_index w) d)"
      using hit kvs_entry_written_same [of s "write_index w" d] by simp
    show ?thesis
      using IH ixs s2 hit e1
      by (cases "js = []") (auto simp: stamped_def split: option.splits)
  qed
qed


text \<open>
  C4. Over any sequence of \<^verbatim>\<open>KVSSet\<close> and \<^verbatim>\<open>KVSCheckAndSet\<close> calls, once a write to key
  \<open>k\<close> has taken effect the entry stored under \<open>k\<close> has the ModifyIndex of the last such
  write; its CreateIndex is the index of the first such write when the key was absent before
  the sequence, and the CreateIndex the key had before otherwise: no later write changes it.
\<close>

theorem kvs_create_modify_index:
  "run_writes k ws s = (ixs, s') \<Longrightarrow> ixs \<noteq> [] \<Longrightarrow>
     (\<exists>e. kvs_entry s' k = Some e \<and>
        CreateIndex e = (case kvs_entry s k of None \<Rightarrow> hd ixs | Some e0 \<Rightarrow> CreateIndex e0) \<and>
        ModifyIndex e = last ixs)"
  using run_writes_entry by blast

lemma run_writes_ab:
  "run_writes ''a/b'' writes_ab empty_store =
     ([10, 11, 12], empty_store\<lparr>kvsTable :=
        \<lparr>rows = [\<lparr>CreateIndex = 10, ModifyIndex = 12, Key = ''a/b'', Flags = 0, Value = ''v3''\<rparr>],
         lastIndex = 12\<rparr>\<rparr>)"
  by (simp add: writes_ab_def entry_ab_def KVSSet_def KVSCheckAndSet_def table_ops fails_def
      upsert_def empty_store_def empty_table_def Let_def)

theorem kvs_create_modify_index_witness:
  "run_writes ''a/b'' writes_ab empty_store =
     ([10, 11, 12], empty_store\<lparr>kvsTable :=
        \<lparr>rows = [\<lparr>CreateIndex = 10, ModifyIndex = 12, Key = ''a/b'', Flags = 0, Value = ''v3''\<rparr>],
         lastIndex = 12\<rparr>\<rparr>) \<and>
   [10, 11, 12] \<noteq> ([] :: 64 word list) \<and>
   (\<exists>e. kvs_entry (empty_store\<lparr>kvsTable :=
        \<lparr>rows = [\<lparr>CreateIndex = 10, ModifyIndex = 12, Key = ''a/b'', Flags = 0, Value = ''v3''\<rparr>],
         lastIndex = 12\<rparr>\<rparr>) ''a/b'' = Some e \<and> CreateIndex e = 10 \<and> ModifyIndex e = 12)"
  using kvs_create_modify_index [OF run_writes_ab] run_writes_ab
  by (simp add: kvs_entry_def empty_store_def empty_table_def)

subsection \<open>Deletes and watermarks\<close>














subsection \<open>EnsureCheck\<close>

lemma filter_Nil_find: "(filter P xs = []) = (find P xs = None)"
  by (induction xs) auto

lemma EnsureCheck_missing_node:
  "nofault flt \<Longrightarrow> node_row s (hc_Node check) = None \<Longrightarrow>
   EnsureCheck flt index check s =
     \<lparr>err = Some MissingNode, st = s, fired = [], val = defaulted check\<rparr>"
  by (auto simp: EnsureCheck_def defaulted_def Let_def table_ops nofault_fails nofault_tl
      node_row_def filter_Nil_find)

lemma EnsureCheck_missing_service:
  "nofault flt \<Longrightarrow> node_row s (hc_Node check) \<noteq> None \<Longrightarrow> hc_ServiceID check \<noteq> [] \<Longrightarrow>
   service_row s (hc_Node check) (hc_ServiceID check) = None \<Longrightarrow>
   EnsureCheck flt index check s =
     \<lparr>err = Some MissingService, st = s, fired = [], val = defaulted check\<rparr>"
  by (auto simp: EnsureCheck_def defaulted_def Let_def table_ops nofault_fails nofault_tl
      node_row_def service_row_def filter_Nil_find first_match)

lemma EnsureCheck_node_check:
  "nofault flt \<Longrightarrow> node_row s (hc_Node check) \<noteq> None \<Longrightarrow> hc_ServiceID check = [] \<Longrightarrow>
   EnsureCheck flt index check s =
     \<lparr>err = None,
      st = s\<lparr>checkTable :=
        \<lparr>rows = upsert (\<lambda>r. (hc_Node r, hc_CheckID r)) (defaulted check) (rows (checkTable s)),
         lastIndex = index\<rparr>\<rparr>,
      fired = [dbChecks], val = defaulted check\<rparr>"
  by (auto simp: EnsureCheck_def defaulted_def Let_def table_ops nofault_fails nofault_tl
      node_row_def filter_Nil_find)

lemma EnsureCheck_service_check:
  "nofault flt \<Longrightarrow> node_row s (hc_Node check) \<noteq> None \<Longrightarrow> hc_ServiceID check \<noteq> [] \<Longrightarrow>
   service_row s (hc_Node check) (hc_ServiceID check) = Some srv \<Longrightarrow>
   EnsureCheck flt index check s =
     \<lparr>err = None,
      st = s\<lparr>checkTable :=
        \<lparr>rows = upsert (\<lambda>r. (hc_Node r, hc_CheckID r))
           ((defaulted check)\<lparr>hc_ServiceName := sn_ServiceName srv\<rparr>) (rows (checkTable s)),
         lastIndex = index\<rparr>\<rparr>,
      fired = [dbChecks], val = (defaulted check)\<lparr>hc_ServiceName := sn_ServiceName srv\<rparr>\<rparr>"
  by (auto simp: EnsureCheck_def defaulted_def Let_def table_ops nofault_fails nofault_tl
      node_row_def service_row_def filter_Nil_find first_match)

lemma check_row_upsert:
  "hc_Node c = n \<Longrightarrow> hc_CheckID c = i \<Longrightarrow>
   check_row (s\<lparr>checkTable :=
      \<lparr>rows = upsert (\<lambda>r. (hc_Node r, hc_CheckID r)) c (rows (checkTable s)),
       lastIndex = index\<rparr>\<rparr>) n i = Some c"
  using find_upsert_same [of "\<lambda>r. (hc_Node r, hc_CheckID r)" c "rows (checkTable s)"]
  by (simp add: check_row_def)

lemma defaulted_ids:
  "hc_Node (defaulted check) = hc_Node check" "hc_CheckID (defaulted check) = hc_CheckID check"
  by (simp_all add: defaulted_def)

text \<open>
  C8. \<^verbatim>\<open>EnsureCheck(index, check)\<close>, no table operation failing: an empty Status becomes
  \<^verbatim>\<open>unknown\<close> (\<open>defaulted\<close>); without a nodes row for \<^verbatim>\<open>check.Node\<close> it fails and the store
  is as before; with a ServiceID and no services row for (Node, ServiceID) it fails as well;
  otherwise it succeeds, the check (with the ServiceName of the services row when it has a
  ServiceID) is upserted into the checks table and is the row found under (Node, CheckID).
\<close>

theorem EnsureCheck_behaviour:
  "nofault flt \<Longrightarrow>
   (node_row s (hc_Node check) = None \<longrightarrow>
      EnsureCheck flt index check s =
        \<lparr>err = Some MissingNode, st = s, fired = [], val = defaulted check\<rparr>) \<and>
   (node_row s (hc_Node check) \<noteq> None \<and> hc_ServiceID check \<noteq> [] \<and>
    service_row s (hc_Node check) (hc_ServiceID check) = None \<longrightarrow>
      EnsureCheck flt index check s =
        \<lparr>err = Some MissingService, st = s, fired = [], val = defaulted check\<rparr>) \<and>
   (node_row s (hc_Node check) \<noteq> None \<and> hc_ServiceID check = [] \<longrightarrow>
      err (EnsureCheck flt index check s) = None \<and>
      val (EnsureCheck flt index check s) = defaulted check \<and>
      checkTable (st (EnsureCheck flt index check s)) =
        \<lparr>rows = upsert (\<lambda>r. (hc_Node r, hc_CheckID r)) (defaulted check) (rows (checkTable s)),
         lastIndex = index\<rparr> \<and>
      check_row (st (EnsureCheck flt index check s)) (hc_Node check) (hc_CheckID check) =
        Some (defaulted check)) \<and>
   (\<forall>srv. node_row s (hc_Node check) \<noteq> None \<and> hc_ServiceID check \<noteq> [] \<and>
      service_row s (hc_Node check) (hc_ServiceID check) = Some srv \<longrightarrow>
      err (EnsureCheck flt index check s) = None \<and>
      val (EnsureCheck flt index check s) =
        (defaulted check)\<lparr>hc_ServiceName := sn_ServiceName srv\<rparr> \<and>
      checkTable (st (EnsureCheck flt index check s)) =
        \<lparr>rows = upsert (\<lambda>r. (hc_Node r, hc_CheckID r))
           ((defaulted check)\<lparr>hc_ServiceName := sn_ServiceName srv\<rparr>) (rows (checkTable s)),
         lastIndex = index\<rparr> \<and>
      check_row (st (EnsureCheck flt index check s)) (hc_Node check) (hc_CheckID check) =
        Some ((defaulted check)\<lparr>hc_ServiceName := sn_ServiceName srv\<rparr>))"
  by (simp add: EnsureCheck_missing_node EnsureCheck_missing_service EnsureCheck_node_check
      EnsureCheck_service_check check_row_upsert defaulted_ids)

theorem EnsureCheck_behaviour_witness:
  "nofault [] \<and> node_row store_web (hc_Node check_new) \<noteq> None \<and>
   hc_ServiceID check_new \<noteq> [] \<and>
   service_row store_web (hc_Node check_new) (hc_ServiceID check_new) = Some service_web \<and>
   err (EnsureCheck [] 7 check_new store_web) = None \<and>
   val (EnsureCheck [] 7 check_new store_web) =
     check_new\<lparr>hc_Status := ''unknown'', hc_ServiceName := ''web''\<rparr> \<and>
   check_row (st (EnsureCheck [] 7 check_new store_web)) ''n1'' ''db-ping'' =
     Some (check_new\<lparr>hc_Status := ''unknown'', hc_ServiceName := ''web''\<rparr>)"
  using EnsureCheck_behaviour [of "[]" store_web check_new 7]
  by (simp add: nofault_def node_row_def service_row_def store_web_def empty_store_def
      empty_table_def node_n1_def service_web_def check_web_def check_new_def defaulted_def
      HealthUnknown_def)

subsection \<open>The uniqueness loop of SessionCreate\<close>

lemma unique_id_loop_step:
  assumes IH: "\<And>i t f y. loop i t f = Some y \<Longrightarrow>
      \<not> (nofault f \<and> filter (\<lambda>r. ss_ID r = i) (rows t) \<noteq> [])"
    and eq: "(case fst (GetTxn (\<lambda>r. ss_ID r = ident) t flt) of
        Inl e \<Rightarrow> Some (Inl e, snd (GetTxn (\<lambda>r. ss_ID r = ident) t flt))
      | Inr res \<Rightarrow>
          if length res = 0 then Some (Inr (), snd (GetTxn (\<lambda>r. ss_ID r = ident) t flt))
          else loop ident t (snd (GetTxn (\<lambda>r. ss_ID r = ident) t flt))) = Some y"
  shows "\<not> (nofault flt \<and> filter (\<lambda>r. ss_ID r = ident) (rows t) \<noteq> [])"
proof
  assume a: "nofault flt \<and> filter (\<lambda>r. ss_ID r = ident) (rows t) \<noteq> []"
  then have g: "GetTxn (\<lambda>r. ss_ID r = ident) t flt =
      (Inr (filter (\<lambda>r. ss_ID r = ident) (rows t)), tl flt)"
    by (simp add: GetTxn_def engine_op_def nofault_fails)
  from eq a have "loop ident t (tl flt) = Some y"
    unfolding g by simp
  from IH [OF this] a show False
    by (simp add: nofault_tl)
qed

lemma unique_id_loop_collision_aux:
  "unique_id_loop ident t flt = Some y \<Longrightarrow>
     \<not> (nofault flt \<and> filter (\<lambda>r. ss_ID r = ident) (rows t) \<noteq> [])"
  by (rule unique_id_loop.raw_induct [where P = "\<lambda>i t f y.
      \<not> (nofault f \<and> filter (\<lambda>r. ss_ID r = i) (rows t) \<noteq> [])"])
    (rule unique_id_loop_step, assumption+)

lemma unique_id_loop_collision:
  "nofault flt \<Longrightarrow> filter (\<lambda>r. ss_ID r = ident) (rows t) \<noteq> [] \<Longrightarrow> unique_id_loop ident t flt = None"
  using unique_id_loop_collision_aux by (cases "unique_id_loop ident t flt") auto

lemma unique_id_loop_fresh:
  "nofault flt \<Longrightarrow> filter (\<lambda>r. ss_ID r = ident) (rows t) = [] \<Longrightarrow> unique_id_loop ident t flt = Some (Inr (), tl flt)"
  by (subst unique_id_loop.simps) (simp add: table_ops nofault_fails)

subsection \<open>SessionCreate and SessionRestore\<close>

lemma verify_checks_refused:
  "list_ex (check_refused s node) cs \<Longrightarrow> \<exists>e f. verify_checks node cs (checkTable s) flt = (Inl e, f)"
proof (induction cs arbitrary: flt)
  case Nil
  then show ?case by simp
next
  case (Cons c cs)
  show ?case
  proof (cases "check_refused s node c")
    case True
    then show ?thesis
      by (auto simp: check_refused_def check_row_def table_ops first_match HealthCritical_def split: option.splits)
  next
    case False
    with Cons.prems have "list_ex (check_refused s node) cs" by simp
    from Cons.IH [OF this] False show ?thesis
      by (auto simp: check_refused_def check_row_def table_ops first_match HealthCritical_def split: option.splits)
  qed
qed

lemma verify_checks_first:
  "nofault flt \<Longrightarrow> list_ex (check_refused s node) cs \<Longrightarrow>
   \<exists>c \<in> set cs. check_refused s node c \<and>
      fst (verify_checks node cs (checkTable s) flt) =
         Inl (case check_row s node c of None \<Rightarrow> MissingCheck c | Some chk \<Rightarrow> CheckCritical c (hc_Status chk))"
proof (induction cs arbitrary: flt)
  case Nil
  then show ?case by simp
next
  case (Cons c cs)
  show ?case
  proof (cases "check_refused s node c")
    case True
    with Cons.prems(1) show ?thesis
      by (auto simp: check_refused_def check_row_def table_ops first_match HealthCritical_def nofault_fails split: option.splits)
  next
    case False
    with Cons.prems have "list_ex (check_refused s node) cs" by simp
    from Cons.IH [OF nofault_tl [OF Cons.prems(1)] this] False Cons.prems(1) show ?thesis
      by (auto simp: check_refused_def check_row_def table_ops first_match HealthCritical_def nofault_fails split: option.splits)
  qed
qed

lemma verify_checks_accepted:
  "nofault flt \<Longrightarrow> \<not> list_ex (check_refused s node) cs \<Longrightarrow>
   \<exists>f. verify_checks node cs (checkTable s) flt = (Inr (), f) \<and> nofault f"
proof (induction cs arbitrary: flt)
  case Nil
  then show ?case by simp
next
  case (Cons c cs)
  from Cons.prems have c: "\<not> check_refused s node c" and cs: "\<not> list_ex (check_refused s node) cs"
    by simp_all
  from Cons.IH [OF nofault_tl [OF Cons.prems(1)] cs] c Cons.prems(1) show ?case
    by (auto simp: check_refused_def check_row_def table_ops first_match HealthCritical_def nofault_fails split: option.splits)
qed

lemma insert_checks_nofault:
  "nofault flt \<Longrightarrow> \<exists>t' f. insert_checks node ident cs t flt = (Inr t', f) \<and> nofault f \<and> lastIndex t' = lastIndex t"
proof (induction cs arbitrary: t flt)
  case Nil
  then show ?case by simp
next
  case (Cons c cs)
  have "nofault (tl flt)" using Cons.prems by (rule nofault_tl)
  from Cons.IH [OF this, of "t\<lparr>rows := upsert (\<lambda>r. (sc_Node r, sc_CheckID r, sc_Session r))
      \<lparr>sc_Node = node, sc_CheckID = c, sc_Session = ident\<rparr> (rows t)\<rparr>"] Cons.prems
  show ?case
    by (simp add: table_ops nofault_fails)
qed


lemma store_session_SetLastIndexTxn:
  "nofault flt \<Longrightarrow>
   \<exists>c. store_session SetLastIndexTxn SetLastIndexTxn flt index session s =
     \<lparr>err = None,
      st = s\<lparr>sessionTable := \<lparr>rows = upsert ss_ID session (rows (sessionTable s)), lastIndex = index\<rparr>,
             sessionCheckTable := c\<lparr>lastIndex := index\<rparr>\<rparr>,
      fired = [dbSessionChecks, dbSessions], val = session\<rparr>"
proof -
  assume nf: "nofault flt"
  obtain c f where ic: "insert_checks (ss_Node session) (ss_ID session) (ss_Checks session)
       (sessionCheckTable s) (tl flt) = (Inr c, f)" and f: "nofault f"
    using insert_checks_nofault [OF nofault_tl [OF nf]] by blast
  show ?thesis
    using nf f ic
    by (intro exI [of _ c]) (simp add: store_session_def table_ops nofault_fails nofault_tl)
qed

lemma store_session_SetMaxLastIndexTxn:
  "nofault flt \<Longrightarrow>
   \<exists>c. lastIndex c = lastIndex (sessionCheckTable s) \<and>
     store_session SetMaxLastIndexTxn SetMaxLastIndexTxn flt index session s =
     \<lparr>err = None,
      st = s\<lparr>sessionTable := \<lparr>rows = upsert ss_ID session (rows (sessionTable s)),
                lastIndex = max index (lastIndex (sessionTable s))\<rparr>,
             sessionCheckTable := c\<lparr>lastIndex := max index (lastIndex c)\<rparr>\<rparr>,
      fired = [dbSessionChecks, dbSessions], val = session\<rparr>"
proof -
  assume nf: "nofault flt"
  obtain c f where ic: "insert_checks (ss_Node session) (ss_ID session) (ss_Checks session)
       (sessionCheckTable s) (tl flt) = (Inr c, f)" and f: "nofault f"
     and c: "lastIndex c = lastIndex (sessionCheckTable s)"
    using insert_checks_nofault [OF nofault_tl [OF nf]] by blast
  show ?thesis
    using nf f ic c
    by (intro exI [of _ c]) (simp add: store_session_def table_ops nofault_fails nofault_tl)
qed

lemma store_session_failed:
  "err (store_session set_index set_index' flt index session s) \<noteq> None \<Longrightarrow>
   st (store_session set_index set_index' flt index session s) = s"
  by (auto simp: store_session_def split: prod.splits sum.splits)

lemma SessionCreate_refused:
  assumes "session_refused s session"
  shows "\<exists>r. SessionCreate flt uuid index session s = Some r \<and> err r \<noteq> None \<and> st r = s \<and> fired r = []"
proof (cases "node_row s (ss_Node session) = None")
  case True
  then show ?thesis
    by (auto simp: SessionCreate_def Let_def table_ops node_row_def filter_Nil_find)
next
  case False
  with assms have "list_ex (check_refused s (ss_Node session)) (ss_Checks session)"
    by (simp add: session_refused_def)
  from verify_checks_refused [OF this]
  obtain e f where "verify_checks (ss_Node session) (ss_Checks session) (checkTable s) (tl (tl flt)) = (Inl e, f)"
    by blast
  then show ?thesis
    by (auto simp: SessionCreate_def Let_def table_ops)
qed

lemma SessionCreate_missing_node:
  "nofault flt \<Longrightarrow> node_row s (ss_Node session) = None \<Longrightarrow>
   SessionCreate flt uuid index session s =
     Some \<lparr>err = Some MissingNode, st = s, fired = [], val = session\<lparr>ss_CreateIndex := index\<rparr>\<rparr>"
  by (auto simp: SessionCreate_def Let_def table_ops node_row_def filter_Nil_find nofault_fails nofault_tl)

lemma SessionCreate_refused_check:
  assumes nf: "nofault flt" and n: "node_row s (ss_Node session) \<noteq> None"
    and r: "list_ex (check_refused s (ss_Node session)) (ss_Checks session)"
  shows "\<exists>c \<in> set (ss_Checks session). check_refused s (ss_Node session) c \<and>
     SessionCreate flt uuid index session s =
       Some \<lparr>err = Some (case check_row s (ss_Node session) c of
                 None \<Rightarrow> MissingCheck c | Some chk \<Rightarrow> CheckCritical c (hc_Status chk)),
             st = s, fired = [], val = session\<lparr>ss_CreateIndex := index\<rparr>\<rparr>"
proof -
  have nf2: "nofault (tl (tl flt))" using nf by (simp add: nofault_tl)
  from verify_checks_first [OF nf2 r]
  obtain c where c: "c \<in> set (ss_Checks session)" "check_refused s (ss_Node session) c"
    and v: "fst (verify_checks (ss_Node session) (ss_Checks session) (checkTable s) (tl (tl flt))) =
         Inl (case check_row s (ss_Node session) c of None \<Rightarrow> MissingCheck c | Some chk \<Rightarrow> CheckCritical c (hc_Status chk))"
    by blast
  obtain f where "verify_checks (ss_Node session) (ss_Checks session) (checkTable s) (tl (tl flt)) =
     (Inl (case check_row s (ss_Node session) c of None \<Rightarrow> MissingCheck c | Some chk \<Rightarrow> CheckCritical c (hc_Status chk)), f)"
    using v by (cases "verify_checks (ss_Node session) (ss_Checks session) (checkTable s) (tl (tl flt))") auto
  with nf n have "SessionCreate flt uuid index session s =
       Some \<lparr>err = Some (case check_row s (ss_Node session) c of
                 None \<Rightarrow> MissingCheck c | Some chk \<Rightarrow> CheckCritical c (hc_Status chk)),
             st = s, fired = [], val = session\<lparr>ss_CreateIndex := index\<rparr>\<rparr>"
    by (auto simp: SessionCreate_def Let_def table_ops node_row_def filter_Nil_find nofault_fails nofault_tl)
  with c show ?thesis by blast
qed

lemma SessionCreate_accepted:
  assumes nf: "nofault flt" and ok: "\<not> session_refused s session"
    and fresh: "session_row s uuid = None"
  shows "\<exists>r. SessionCreate flt uuid index session s = Some r \<and> err r = None \<and>
     val r = session\<lparr>ss_CreateIndex := index, ss_ID := uuid\<rparr> \<and>
     session_row (st r) uuid = Some (session\<lparr>ss_CreateIndex := index, ss_ID := uuid\<rparr>)"
proof -
  have nf2: "nofault (tl (tl flt))" using nf by (simp add: nofault_tl)
  from ok have n: "node_row s (ss_Node session) \<noteq> None"
    and c: "\<not> list_ex (check_refused s (ss_Node session)) (ss_Checks session)"
    by (simp_all add: session_refused_def)
  from verify_checks_accepted [OF nf2 c]
  obtain f where v: "verify_checks (ss_Node session) (ss_Checks session) (checkTable s) (tl (tl flt)) = (Inr (), f)"
    and f: "nofault f" by blast
  from fresh have u: "unique_id_loop uuid (sessionTable s) f = Some (Inr (), tl f)"
    by (intro unique_id_loop_fresh [OF f]) (simp add: session_row_def filter_Nil_find)
  from store_session_SetLastIndexTxn [OF nofault_tl [OF f], of index "session\<lparr>ss_CreateIndex := index, ss_ID := uuid\<rparr>" s]
  obtain ct where st: "store_session SetLastIndexTxn SetLastIndexTxn (tl f) index (session\<lparr>ss_CreateIndex := index, ss_ID := uuid\<rparr>) s =
     \<lparr>err = None,
      st = s\<lparr>sessionTable := \<lparr>rows = upsert ss_ID (session\<lparr>ss_CreateIndex := index, ss_ID := uuid\<rparr>) (rows (sessionTable s)), lastIndex = index\<rparr>,
             sessionCheckTable := ct\<lparr>lastIndex := index\<rparr>\<rparr>,
      fired = [dbSessionChecks, dbSessions], val = session\<lparr>ss_CreateIndex := index, ss_ID := uuid\<rparr>\<rparr>"
    by blast
  have "SessionCreate flt uuid index session s = Some (store_session SetLastIndexTxn SetLastIndexTxn (tl f) index (session\<lparr>ss_CreateIndex := index, ss_ID := uuid\<rparr>) s)"
    using nf n v u
    by (auto simp: SessionCreate_def Let_def StartTxn_def GetTxn_def engine_op_def node_row_def filter_Nil_find nofault_fails nofault_tl)
  then show ?thesis
    using find_upsert_same [of ss_ID "session\<lparr>ss_CreateIndex := index, ss_ID := uuid\<rparr>" "rows (sessionTable s)"]
    by (simp add: st session_row_def)
qed

lemma SessionCreate_collision:
  assumes nf: "nofault flt" and ok: "\<not> session_refused s session"
    and taken: "session_row s uuid \<noteq> None"
  shows "SessionCreate flt uuid index session s = None"
proof -
  have nf2: "nofault (tl (tl flt))" using nf by (simp add: nofault_tl)
  from ok have n: "node_row s (ss_Node session) \<noteq> None"
    and c: "\<not> list_ex (check_refused s (ss_Node session)) (ss_Checks session)"
    by (simp_all add: session_refused_def)
  from verify_checks_accepted [OF nf2 c]
  obtain f where v: "verify_checks (ss_Node session) (ss_Checks session) (checkTable s)
      (tl (tl flt)) = (Inr (), f)"
    and f: "nofault f" by blast
  from taken have "unique_id_loop uuid (sessionTable s) f = None"
    by (intro unique_id_loop_collision [OF f]) (simp add: session_row_def filter_Nil_find)
  with nf n v show ?thesis
    by (auto simp: SessionCreate_def Let_def StartTxn_def GetTxn_def engine_op_def node_row_def
        filter_Nil_find nofault_fails nofault_tl)
qed

text \<open>
  C2. The specification has \<^verbatim>\<open>SessionCreate\<close> generate another ID when the generated one
  collides with a stored session, so that its loop ends with a new ID. The source calls
  \<^verbatim>\<open>generateUUID()\<close> once, before the loop, and the loop looks the same ID up again: with
  the stored session \<^verbatim>\<open>u1\<close> and the generated ID \<^verbatim>\<open>u1\<close> the method does not return.
\<close>

theorem SessionCreate_collision_never_returns:
  "SessionCreate [] ''u1'' 30 (session_on [''c1'']) store_sess = None"
  by (rule SessionCreate_collision)
    (simp_all add: nofault_def session_refused_def check_refused_def node_row_def check_row_def
      session_row_def store_sess_def session_on_def check_c_def node_n1_def empty_store_def
      empty_table_def)

text \<open>
  C7. \<^verbatim>\<open>SessionCreate\<close> returns an error and leaves the whole store as it was (rows and
  watermarks), with no notification, whenever the node of the session is not registered, or
  a listed check has no row for the node, or a listed check has Status \<^verbatim>\<open>critical\<close>
  (\<open>session_refused\<close>). Otherwise, a listed check in status \<^verbatim>\<open>warning\<close> included, and the
  generated ID being new and no table operation failing, it succeeds and stores the session.
\<close>

theorem SessionCreate_precondition:
  "(session_refused s session \<longrightarrow>
      (\<exists>r. SessionCreate flt uuid index session s = Some r \<and>
           err r \<noteq> None \<and> st r = s \<and> fired r = [])) \<and>
   (nofault flt \<and> \<not> session_refused s session \<and> session_row s uuid = None \<longrightarrow>
      (\<exists>r. SessionCreate flt uuid index session s = Some r \<and> err r = None \<and>
           val r = session\<lparr>ss_CreateIndex := index, ss_ID := uuid\<rparr> \<and>
           session_row (st r) uuid = Some (session\<lparr>ss_CreateIndex := index, ss_ID := uuid\<rparr>)))"
  using SessionCreate_refused SessionCreate_accepted by blast

theorem SessionCreate_precondition_witness:
  "session_refused store_sess (session_on [''c1'', ''c2'']) \<and>
   (\<exists>r. SessionCreate [] ''u2'' 30 (session_on [''c1'', ''c2'']) store_sess = Some r \<and>
        err r \<noteq> None \<and> st r = store_sess \<and> fired r = []) \<and>
   nofault [] \<and> \<not> session_refused store_sess (session_on [''c1'']) \<and>
   session_row store_sess ''u2'' = None \<and>
   (\<exists>r. SessionCreate [] ''u2'' 30 (session_on [''c1'']) store_sess = Some r \<and>
        err r = None \<and>
        val r = (session_on [''c1''])\<lparr>ss_CreateIndex := 30, ss_ID := ''u2''\<rparr> \<and>
        session_row (st r) ''u2'' =
          Some ((session_on [''c1''])\<lparr>ss_CreateIndex := 30, ss_ID := ''u2''\<rparr>))"
  using SessionCreate_precondition [of store_sess "session_on [''c1'', ''c2'']" "[]" "''u2''" 30]
    SessionCreate_precondition [of store_sess "session_on [''c1'']" "[]" "''u2''" 30]
  by (simp add: nofault_def session_refused_def check_refused_def node_row_def check_row_def
      session_row_def store_sess_def session_on_def check_c_def node_n1_def empty_store_def
      empty_table_def)

subsection \<open>Restore\<close>

lemma KVSRestore_watermark:
  "watermark (st (KVSRestore flt d s)) dbKVS = watermark s dbKVS \<and> fired (KVSRestore flt d s) = []"
  by (simp add: KVSRestore_def table_ops)

lemma SessionRestore_watermark:
  assumes "nofault flt"
  shows "err (SessionRestore flt session s) = None \<and>
     watermark (st (SessionRestore flt session s)) dbSessions =
       max (ss_CreateIndex session) (watermark s dbSessions) \<and>
     watermark (st (SessionRestore flt session s)) dbSessionChecks =
       max (ss_CreateIndex session) (watermark s dbSessionChecks)"
proof -
  from store_session_SetMaxLastIndexTxn [OF nofault_tl [OF assms],
      where s = s and session = session and index = "ss_CreateIndex session"]
  obtain c where "lastIndex c = lastIndex (sessionCheckTable s)"
    and "store_session SetMaxLastIndexTxn SetMaxLastIndexTxn (tl flt) (ss_CreateIndex session)
       session s =
     \<lparr>err = None,
      st = s\<lparr>sessionTable := \<lparr>rows = upsert ss_ID session (rows (sessionTable s)),
                lastIndex = max (ss_CreateIndex session) (lastIndex (sessionTable s))\<rparr>,
             sessionCheckTable := c\<lparr>lastIndex := max (ss_CreateIndex session) (lastIndex c)\<rparr>\<rparr>,
      fired = [dbSessionChecks, dbSessions], val = session\<rparr>"
    by blast
  with assms show ?thesis
    by (simp add: SessionRestore_def StartTxn_def engine_op_def nofault_fails)
qed

text \<open>
  C3. The specification has \<^verbatim>\<open>KVSRestore\<close> and \<^verbatim>\<open>SessionRestore\<close> both move the
  watermark of the tables they write with max semantics. \<^verbatim>\<open>SessionRestore\<close> does
  (\<open>SessionRestore_watermark\<close>); \<^verbatim>\<open>KVSRestore\<close> inserts the entry and commits without
  setting any watermark (\<open>KVSRestore_watermark\<close>): restoring an entry with index 5 into the
  empty store leaves the watermark of kvs at 0.
\<close>

theorem KVSRestore_leaves_watermark:
  "KVSRestore [] entry_old empty_store =
     \<lparr>err = None,
      st = empty_store\<lparr>kvsTable := \<lparr>rows = [entry_old], lastIndex = 0\<rparr>\<rparr>,
      fired = [], val = ()\<rparr>"
  by (simp add: KVSRestore_def table_ops fails_def upsert_def empty_store_def empty_table_def)

subsection \<open>Queries over services\<close>

lemma take_Suc_update:
  "i < n \<Longrightarrow> Suc n \<le> length l \<Longrightarrow> mset (filter P (take n (l[i := l ! n]))) + (if P (l ! i) then {#l ! i#} else {#}) =
     mset (filter P (take (Suc n) l))"
proof -
  assume a: "i < n" "Suc n \<le> length l"
  have t: "take (Suc n) l = take n l @ [l ! n]" using a by (simp add: take_Suc_conv_app_nth)
  have u: "take n (l[i := l ! n]) = (take n l)[i := l ! n]" by (simp add: take_update_swap)
  have i: "i < length (take n l)" using a by simp
  have n: "(take n l) ! i = l ! i" using a by simp
  have "mset ((take n l)[i := l ! n]) + {#l ! i#} = mset (take n l) + {#l ! n#}"
    using i n nth_mem_mset [OF i] by (simp add: mset_update)
  then have "filter_mset P (mset ((take n l)[i := l ! n]) + {#l ! i#}) = filter_mset P (mset (take n l) + {#l ! n#})"
    by simp
  then show ?thesis
    unfolding t u by (simp add: mset_filter split: if_splits)
qed

lemma serviceTagFilter_loop_mset:
  "i \<le> n \<Longrightarrow> n \<le> length l \<Longrightarrow> (\<forall>j < i. tagged tag (l ! j)) \<Longrightarrow>
   mset (serviceTagFilter_loop l tag i n) = mset (filter (tagged tag) (take n l))"
proof (induction l tag i n rule: serviceTagFilter_loop.induct)
  case (1 l tag i n)
  show ?case
  proof (cases "i < n")
    case False
    with 1(3) have "i = n" by simp
    with 1(5) have "\<forall>x \<in> set (take n l). tagged tag x"
      using 1(4) by (auto simp: in_set_conv_nth)
    then have "filter (tagged tag) (take n l) = take n l" by (simp add: filter_id_conv)
    with False show ?thesis by (subst serviceTagFilter_loop.simps) simp
  next
    case True
    show ?thesis
    proof (cases "tagged tag (l ! i)")
      case True
      from 1(2) [OF \<open>i < n\<close>] True 1(3,4,5) \<open>i < n\<close>
      have "mset (serviceTagFilter_loop l tag (i + 1) n) = mset (filter (tagged tag) (take n l))"
        by (auto simp: tagged_def less_Suc_eq)
      with True \<open>i < n\<close> show ?thesis
        by (subst serviceTagFilter_loop.simps) (simp add: tagged_def)
    next
      case False
      obtain m where m: "n = Suc m" using \<open>i < n\<close> by (cases n) auto
      have pre: "\<forall>j<i. tagged tag (l[i := l ! (n - 1)] ! j)" using 1(5) by simp
      from 1(1) [OF \<open>i < n\<close>] False 1(3,4) \<open>i < n\<close> pre
      have IH: "mset (serviceTagFilter_loop (l[i := l ! (n - 1)]) tag i (n - 1)) =
          mset (filter (tagged tag) (take (n - 1) (l[i := l ! (n - 1)])))"
        by (auto simp: tagged_def)
      have "mset (filter (tagged tag) (take m (l[i := l ! m]))) = mset (filter (tagged tag) (take (Suc m) l))"
      proof (cases "i < m")
        case True
        from take_Suc_update [OF True, of l "tagged tag"] 1(4) m False show ?thesis by simp
      next
        case False
        with \<open>i < n\<close> m have "i = m" by simp
        with \<open>\<not> tagged tag (l ! i)\<close> 1(4) m show ?thesis
          by (simp add: take_Suc_conv_app_nth)
      qed
      with IH m False \<open>i < n\<close> show ?thesis
        by (subst serviceTagFilter_loop.simps) (simp add: tagged_def)
    qed
  qed
qed

lemma serviceTagFilter_mset: "mset (serviceTagFilter l tag) = mset (filter (tagged tag) l)"
  using serviceTagFilter_loop_mset [of 0 "length l" l tag] by (simp add: serviceTagFilter_def)

lemma parseServiceNodes_loop_rel:
  "parseServiceNodes_loop t res flt = (out, f) \<Longrightarrow>
   length out = length res \<and>
   (\<forall>i < length res. find (\<lambda>r. nd_Node r = sn_Node (res ! i)) (rows t) = None \<longrightarrow>
      out ! i = zero_ServiceNode)"
proof (induction res arbitrary: flt out f)
  case Nil
  then show ?case by simp
next
  case (Cons srv rest)
  obtain nodeRes f1 where g: "GetTxn (\<lambda>r. nd_Node r = sn_Node srv) t flt = (nodeRes, f1)"
    by (cases "GetTxn (\<lambda>r. nd_Node r = sn_Node srv) t flt")
  obtain nodes f2 where r: "parseServiceNodes_loop t rest f1 = (nodes, f2)"
    by (cases "parseServiceNodes_loop t rest f1")
  from Cons.prems g r obtain x where out: "out = x # nodes"
    and x: "x = (case nodeRes of Inl e \<Rightarrow> zero_ServiceNode
          | Inr rs \<Rightarrow> (if length rs \<noteq> 1 then zero_ServiceNode
               else srv\<lparr>sn_Address := nd_Address (hd rs)\<rparr>))"
    by auto
  have x0: "find (\<lambda>r. nd_Node r = sn_Node srv) (rows t) = None \<longrightarrow> x = zero_ServiceNode"
    using g x by (auto simp: table_ops filter_Nil_find [symmetric] split: sum.splits if_splits)
  from Cons.IH [OF r] out x0 show ?case
    by (auto simp: nth_Cons split: nat.splits)
qed

lemma parseServiceNodes_loop_length:
  "length (fst (parseServiceNodes_loop t res flt)) = length res"
  using parseServiceNodes_loop_rel [of t res flt] by (cases "parseServiceNodes_loop t res flt") simp

lemma parseServiceNodes_loop_zero:
  "i < length res \<Longrightarrow> find (\<lambda>r. nd_Node r = sn_Node (res ! i)) (rows t) = None \<Longrightarrow>
   fst (parseServiceNodes_loop t res flt) ! i = zero_ServiceNode"
  using parseServiceNodes_loop_rel [of t res flt] by (cases "parseServiceNodes_loop t res flt") simp

lemma parseCheckServiceNodes_loop_rel:
  "parseCheckServiceNodes_loop s res flt = (out, f) \<Longrightarrow>
   length out = length res \<and>
   (\<forall>i < length res. node_row s (sn_Node (res ! i)) = None \<longrightarrow> out ! i = zero_CheckServiceNode)"
proof (induction res arbitrary: flt out f)
  case Nil
  then show ?case by simp
next
  case (Cons srv rest)
  obtain nodeRes f1 where g: "GetTxn (\<lambda>r. nd_Node r = sn_Node srv) (nodeTable s) flt = (nodeRes, f1)"
    by (cases "GetTxn (\<lambda>r. nd_Node r = sn_Node srv) (nodeTable s) flt")
  define step where "step = (case nodeRes of
              Inl e \<Rightarrow> (zero_CheckServiceNode, f1)
            | Inr rs \<Rightarrow>
                if length rs \<noteq> 1 then (zero_CheckServiceNode, f1)
                else
                  (case node_checks (checkTable s) (sn_Node srv) (sn_ServiceID srv) f1 of
                     (checks, f2) \<Rightarrow>
                   case node_checks (checkTable s) (sn_Node srv) [] f2 of
                     (nodeChecks, f3) \<Rightarrow>
                       (\<lparr>csn_Node = hd rs,
                         csn_Service = \<lparr>ns_ID = sn_ServiceID srv, ns_Service = sn_ServiceName srv,
                            ns_Tags = sn_ServiceTags srv, ns_Port = sn_ServicePort srv\<rparr>,
                         csn_Checks = checks @ nodeChecks\<rparr>, f3)))"
  obtain x f4 where st: "step = (x, f4)" by (cases step)
  obtain nodes f5 where r: "parseCheckServiceNodes_loop s rest f4 = (nodes, f5)"
    by (cases "parseCheckServiceNodes_loop s rest f4")
  from Cons.prems g r st have out: "out = x # nodes"
    by (simp add: step_def)
  have x0: "node_row s (sn_Node srv) = None \<longrightarrow> x = zero_CheckServiceNode"
    using g st by (auto simp: step_def table_ops node_row_def filter_Nil_find [symmetric] split: sum.splits if_splits)
  from Cons.IH [OF r] out x0 show ?case
    by (auto simp: nth_Cons split: nat.splits)
qed

lemma parseCheckServiceNodes_loop_length:
  "length (fst (parseCheckServiceNodes_loop s res flt)) = length res"
  using parseCheckServiceNodes_loop_rel [of s res flt]
  by (cases "parseCheckServiceNodes_loop s res flt") simp

lemma parseCheckServiceNodes_loop_zero:
  "i < length res \<Longrightarrow> node_row s (sn_Node (res ! i)) = None \<Longrightarrow>
   fst (parseCheckServiceNodes_loop s res flt) ! i = zero_CheckServiceNode"
  using parseCheckServiceNodes_loop_rel [of s res flt]
  by (cases "parseCheckServiceNodes_loop s res flt") simp

lemma ServiceNodes_result:
  "scan_ok flt \<Longrightarrow> \<exists>idx. ServiceNodes flt service s =
      Inr (idx, fst (parseServiceNodes_loop (nodeTable s) (service_rows s service) (tl (tl (tl flt)))))"
  by (simp add: ServiceNodes_def scan_ok_def table_ops LastIndexTxn_def parseServiceNodes_def service_rows_def)

lemma ServiceTagNodes_result:
  "scan_ok flt \<Longrightarrow> \<exists>idx. ServiceTagNodes flt service tag s =
      Inr (idx, fst (parseServiceNodes_loop (nodeTable s) (serviceTagFilter (service_rows s service) tag) (tl (tl (tl flt)))))"
  by (simp add: ServiceTagNodes_def scan_ok_def table_ops LastIndexTxn_def parseServiceNodes_def service_rows_def)

lemma CheckServiceNodes_result:
  "scan_ok flt \<Longrightarrow> \<exists>idx. CheckServiceNodes flt service s =
      Inr (idx, fst (parseCheckServiceNodes_loop s (service_rows s service) (tl (tl (tl flt)))))"
  by (simp add: CheckServiceNodes_def scan_ok_def table_ops LastIndexTxn_def parseCheckServiceNodes_def service_rows_def)

lemma CheckServiceTagNodes_result:
  "scan_ok flt \<Longrightarrow> \<exists>idx. CheckServiceTagNodes flt service tag s =
      Inr (idx, fst (parseCheckServiceNodes_loop s (serviceTagFilter (service_rows s service) tag) (tl (tl (tl flt)))))"
  by (simp add: CheckServiceTagNodes_def scan_ok_def table_ops LastIndexTxn_def parseCheckServiceNodes_def service_rows_def)

text \<open>
  C10. \<^verbatim>\<open>ServiceNodes\<close>, \<^verbatim>\<open>ServiceTagNodes\<close>, \<^verbatim>\<open>CheckServiceNodes\<close> and
  \<^verbatim>\<open>CheckServiceTagNodes\<close>, when the transaction starts and the service rows are read,
  return one element for each service row of the service (for each that carries the tag, in
  the tag variants: the filter returns those rows, in some order); the element of a row whose
  node has no nodes row is the zero value, so the result is as long as the list of matching
  rows.
\<close>

theorem service_queries_one_element_per_row:
  assumes "scan_ok flt"
  shows "(\<exists>idx nodes. ServiceNodes flt service s = Inr (idx, nodes) \<and>
            joined s (service_rows s service) zero_ServiceNode nodes) \<and>
         (\<exists>idx nodes. ServiceTagNodes flt service tag s = Inr (idx, nodes) \<and>
            joined s (serviceTagFilter (service_rows s service) tag) zero_ServiceNode nodes) \<and>
         (\<exists>idx nodes. CheckServiceNodes flt service s = Inr (idx, nodes) \<and>
            joined s (service_rows s service) zero_CheckServiceNode nodes) \<and>
         (\<exists>idx nodes. CheckServiceTagNodes flt service tag s = Inr (idx, nodes) \<and>
            joined s (serviceTagFilter (service_rows s service) tag) zero_CheckServiceNode nodes) \<and>
         mset (serviceTagFilter (service_rows s service) tag) =
           mset (filter (tagged tag) (service_rows s service))"
  using ServiceNodes_result [OF assms, of service s] ServiceTagNodes_result [OF assms, of service tag s]
    CheckServiceNodes_result [OF assms, of service s] CheckServiceTagNodes_result [OF assms, of service tag s]
  by (auto simp: joined_def parseServiceNodes_loop_length parseCheckServiceNodes_loop_length
      parseServiceNodes_loop_zero parseCheckServiceNodes_loop_zero node_row_def serviceTagFilter_mset)

theorem service_queries_one_element_per_row_witness:
  "scan_ok [] \<and>
   (\<exists>idx nodes. ServiceNodes [] ''web'' store_orphan = Inr (idx, nodes) \<and>
      joined store_orphan (service_rows store_orphan ''web'') zero_ServiceNode nodes) \<and>
   service_rows store_orphan ''web'' =
     [service_web, service_web\<lparr>sn_Node := ''n2'', sn_ServiceTags := []\<rparr>] \<and>
   ServiceNodes [] ''web'' store_orphan =
     Inr (6, [service_web\<lparr>sn_Address := ''10.0.0.1''\<rparr>, zero_ServiceNode]) \<and>
   ServiceTagNodes [] ''web'' ''master'' store_orphan =
     Inr (6, [service_web\<lparr>sn_Address := ''10.0.0.1''\<rparr>])"
  using service_queries_one_element_per_row [of "[]" "''web''" store_orphan "''master''"]
  by (simp add: scan_ok_def fails_def service_rows_def store_orphan_def store_web_def
      empty_store_def empty_table_def service_web_def node_n1_def check_web_def
      ServiceNodes_def ServiceTagNodes_def table_ops LastIndexTxn_def parseServiceNodes_def
      serviceTagFilter_def serviceTagFilter_loop.simps strContains_def zero_ServiceNode_def
      zero_NodeService_def)

subsection \<open>KVSListKeys\<close>

lemma append_less_append: "(p @ x < p @ y) = (x < (y::string))"
  by (induction p) auto

lemma append_le_append: "(p @ x \<le> p @ y) = (x \<le> (y::string))"
  by (induction p) auto

lemma prefix_le: "prefix q (a::string) \<Longrightarrow> q \<le> a"
  using append_le_append [of q "[]"] by (auto simp: prefix_def)

lemma less_append_not_prefix:
  "a < s @ r \<Longrightarrow> \<not> prefix s a \<Longrightarrow> a < (s::string)"
proof (induction s arbitrary: a)
  case Nil
  then show ?case by simp
next
  case (Cons x s)
  then show ?case by (cases a) auto
qed

lemma append_less_not_prefix:
  "s @ r < a \<Longrightarrow> \<not> prefix s a \<Longrightarrow> prefix q a \<Longrightarrow> \<not> prefix q s \<Longrightarrow> (s::string) < q"
proof (induction s arbitrary: a q)
  case Nil
  then show ?case by simp
next
  case (Cons x s)
  then show ?case by (cases a; cases q) auto
qed

lemma cut_prefix: "prefix (cut_after sep a) a"
  by (induction a) auto

lemma cut_index:
  "sep \<noteq> [] \<Longrightarrow>
   (case strings_Index a sep of Some i \<Rightarrow> take (i + length sep) a | None \<Rightarrow> a) = cut_after sep a"
proof (induction a)
  case Nil
  then show ?case by simp
next
  case (Cons c t)
  then show ?case
    by (auto simp: prefix_def split: option.splits)
qed

lemma truncate_key_cut:
  "sep \<noteq> [] \<Longrightarrow> truncate_key (length p) sep (p @ a) = p @ cut_after sep a"
  using cut_index [of sep a]
  by (auto simp: truncate_key_def split: option.splits)

lemma has_sep_Cons: "has_sep sep (c # t) = (prefix sep (c # t) \<or> has_sep sep t)"
  by (simp add: has_sep_def)

lemma has_sep_Nil: "sep \<noteq> [] \<Longrightarrow> \<not> has_sep sep []"
  by (simp add: has_sep_def)

lemma cut_no_sep: "sep \<noteq> [] \<Longrightarrow> \<not> has_sep sep a \<Longrightarrow> cut_after sep a = a"
  by (induction a) (auto simp: has_sep_Cons)

lemma has_sep_cut: "sep \<noteq> [] \<Longrightarrow> has_sep sep a \<Longrightarrow> has_sep sep (cut_after sep a)"
proof (induction a)
  case Nil
  then show ?case by (simp add: has_sep_Nil)
next
  case (Cons c t)
  show ?case
  proof (cases "prefix sep (c # t)")
    case True
    with Cons.prems show ?thesis by (cases sep) (auto simp: has_sep_Cons)
  next
    case False
    with Cons show ?thesis by (auto simp: has_sep_Cons prefix_Cons)
  qed
qed

lemma cut_length: "sep \<noteq> [] \<Longrightarrow> has_sep sep a \<Longrightarrow> length sep \<le> length (cut_after sep a)"
  by (induction a) (auto simp: has_sep_Cons has_sep_Nil)


lemma cut_not_prefix_sep:
  assumes "sep \<noteq> []" "sep @ r < a" "\<not> prefix sep a"
  shows "\<not> prefix (cut_after sep a) sep"
proof
  assume p: "prefix (cut_after sep a) sep"
  show False
  proof (cases "has_sep sep a")
    case True
    from p obtain zs where "sep = cut_after sep a @ zs" by (auto simp: prefix_def)
    then have "length sep = length (cut_after sep a) + length zs" by (metis length_append)
    with cut_length [OF assms(1) True] have "zs = []" by simp
    with \<open>sep = cut_after sep a @ zs\<close> have "cut_after sep a = sep" by simp
    with cut_prefix [of sep a] assms(3) show False by simp
  next
    case False
    with assms(1) p have "prefix a sep" by (simp add: cut_no_sep)
    then have "a \<le> sep" by (rule prefix_le)
    also have "sep \<le> sep @ r" by (rule prefix_le) simp
    finally show False using assms(2) by simp
  qed
qed

lemma cut_mono: "sep \<noteq> [] \<Longrightarrow> a1 < a2 \<Longrightarrow> cut_after sep a1 \<le> cut_after sep a2"
proof (induction a1 arbitrary: a2)
  case Nil
  then show ?case by simp
next
  case (Cons c1 t1)
  from Cons.prems(2) obtain c2 t2 where a2: "a2 = c2 # t2" by (cases a2) auto
  show ?case
  proof (cases "prefix sep (c1 # t1)")
    case True
    then obtain r where r: "c1 # t1 = sep @ r" by (auto simp: prefix_def)
    show ?thesis
    proof (cases "prefix sep a2")
      case True
      with \<open>prefix sep (c1 # t1)\<close> a2 show ?thesis by simp
    next
      case False
      from Cons.prems(2) r have lt: "sep @ r < a2" by simp
      from append_less_not_prefix [OF lt False cut_prefix cut_not_prefix_sep [OF Cons.prems(1) lt False]]
      have "sep < cut_after sep a2" .
      with True show ?thesis by simp
    qed
  next
    case False
    show ?thesis
    proof (cases "prefix sep a2")
      case True
      then obtain r where r: "a2 = sep @ r" by (auto simp: prefix_def)
      from Cons.prems(2) r have "c1 # t1 < sep @ r" by simp
      from less_append_not_prefix [OF this False] have "c1 # t1 < sep" .
      moreover have "cut_after sep (c1 # t1) \<le> c1 # t1" by (rule prefix_le) (rule cut_prefix)
      ultimately have "cut_after sep (c1 # t1) \<le> sep" by simp
      with True a2 show ?thesis by simp
    next
      case np: False
      from Cons.prems(2) a2 have "c1 < c2 \<or> c1 = c2 \<and> t1 < t2" by simp
      with Cons.IH [OF Cons.prems(1), of t2] False np a2 show ?thesis by auto
    qed
  qed
qed

lemma cut_eq:
  assumes "sep \<noteq> []" "a1 < a2" "cut_after sep a1 = cut_after sep a2"
  shows "has_sep sep a1 \<and> has_sep sep a2"
proof -
  have h2: "has_sep sep a2"
  proof (rule ccontr)
    assume "\<not> has_sep sep a2"
    with assms(1,3) have "cut_after sep a1 = a2" by (simp add: cut_no_sep)
    with cut_prefix [of sep a1] have "a2 \<le> a1" by (auto intro: prefix_le)
    with assms(2) show False by simp
  qed
  have h1: "has_sep sep a1"
  proof (rule ccontr)
    assume n: "\<not> has_sep sep a1"
    with assms(1,3) have "cut_after sep a2 = a1" by (simp add: cut_no_sep)
    with has_sep_cut [OF assms(1) h2] n show False by simp
  qed
  from h1 h2 show ?thesis ..
qed


lemma has_sep_index: "has_sep sep a = (strings_Index (drop (length p) (p @ a)) sep \<noteq> None)"
  by (simp add: has_sep_def)

lemma cut_nonempty: "sep \<noteq> [] \<Longrightarrow> has_sep sep a \<Longrightarrow> cut_after sep a \<noteq> []"
  using cut_length [of sep a] by auto

lemma emitted_step:
  assumes "sep \<noteq> []"
  shows "emitted (length p) sep lst ((p @ a) # ks) =
    (if has_sep sep a then
       (if lst \<noteq> p @ cut_after sep a
        then (p @ cut_after sep a) # emitted (length p) sep (p @ cut_after sep a) ks
        else emitted (length p) sep lst ks)
     else (p @ cut_after sep a) # emitted (length p) sep lst ks)"
  using assms cut_index [OF assms, of a] cut_no_sep [OF assms, of a]
  by (auto simp: has_sep_def split: option.splits)

lemma emitted_tail:
  assumes sep: "sep \<noteq> []"
  shows "sorted_wrt (<) (a0 # as) \<Longrightarrow>
    (has_sep sep a0 \<longrightarrow> lst = p @ cut_after sep a0) \<Longrightarrow>
    (lst = [] \<or> lst \<le> p @ cut_after sep a0) \<Longrightarrow>
    emitted (length p) sep lst (map ((@) p) as) =
      tl (remdups_adj (map (\<lambda>a. p @ cut_after sep a) (a0 # as)))"
proof (induction as arbitrary: a0 lst)
  case Nil
  then show ?case by simp
next
  case (Cons a as)
  let ?F = "\<lambda>a. p @ cut_after sep a"
  let ?T = "tl (remdups_adj (map ?F (a # as)))"
  from Cons.prems(1) have lt: "a0 < a" and srt: "sorted_wrt (<) (a # as)" by auto
  have mono: "?F a0 \<le> ?F a" using cut_mono [OF sep lt] by (simp add: append_le_append)
  have rhs: "tl (remdups_adj (map ?F (a0 # a # as))) = (if ?F a0 = ?F a then ?T else ?F a # ?T)"
    by simp
  show ?case
  proof (cases "has_sep sep a")
    case True
    have ne: "?F a \<noteq> []" using cut_nonempty [OF sep True] by simp
    show ?thesis
    proof (cases "?F a0 = ?F a")
      case eq: True
      then have "cut_after sep a0 = cut_after sep a" by simp
      from cut_eq [OF sep lt this] Cons.prems(2) eq have l: "lst = ?F a" by simp
      have "emitted (length p) sep lst (map ((@) p) as) = ?T"
        by (rule Cons.IH [OF srt]) (simp_all add: l)
      with True l eq show ?thesis
        unfolding rhs by (simp add: emitted_step [OF sep] del: emitted.simps)
    next
      case neq: False
      with mono have "?F a0 < ?F a" by (simp add: append_le_append append_less_append less_le)
      with Cons.prems(3) ne have l: "lst \<noteq> ?F a" by auto
      have "emitted (length p) sep (?F a) (map ((@) p) as) = ?T"
        by (rule Cons.IH [OF srt]) simp_all
      with True l neq show ?thesis
        unfolding rhs by (simp add: emitted_step [OF sep] del: emitted.simps)
    qed
  next
    case False
    have neq: "?F a0 \<noteq> ?F a"
      using cut_eq [OF sep lt] False by auto
    have "emitted (length p) sep lst (map ((@) p) as) = ?T"
    proof (rule Cons.IH [OF srt])
      show "has_sep sep a \<longrightarrow> lst = ?F a" using False by simp
      show "lst = [] \<or> lst \<le> ?F a" using Cons.prems(3) mono by auto
    qed
    with False neq show ?thesis
      unfolding rhs by (simp add: emitted_step [OF sep] del: emitted.simps)
  qed
qed

lemma emitted_remdups_adj:
  assumes sep: "sep \<noteq> []" and srt: "sorted_wrt (<) as"
  shows "emitted (length p) sep [] (map ((@) p) as) =
      remdups_adj (map (\<lambda>a. p @ cut_after sep a) as)"
proof (cases as)
  case Nil
  then show ?thesis by simp
next
  case (Cons a rest)
  let ?F = "\<lambda>a. p @ cut_after sep a"
  have s: "sorted_wrt (<) (a # rest)" using srt Cons by simp
  show ?thesis
  proof (cases "has_sep sep a")
    case True
    have ne: "?F a \<noteq> []" using cut_nonempty [OF sep True] by simp
    have "emitted (length p) sep (?F a) (map ((@) p) rest) = tl (remdups_adj (map ?F (a # rest)))"
      by (rule emitted_tail [OF sep s]) simp_all
    with True ne Cons show ?thesis
      by (simp add: emitted_step [OF sep] del: emitted.simps)
  next
    case False
    have "emitted (length p) sep [] (map ((@) p) rest) = tl (remdups_adj (map ?F (a # rest)))"
      by (rule emitted_tail [OF sep s]) (simp_all add: False)
    with False Cons show ?thesis
      by (simp add: emitted_step [OF sep] del: emitted.simps)
  qed
qed

lemma emitted_no_sep: "emitted n [] lst ks = ks"
  by (induction ks) auto

lemma listKeys_loop_emitted:
  "\<forall>ent \<in> set ents. n \<le> length (Key ent) \<Longrightarrow>
   listKeys_loop n sep ents keys lst = Inr (keys @ emitted n sep lst (map Key ents))"
  by (induction ents arbitrary: keys lst) (auto split: option.splits)

lemma sorted_remdups_adj_strict:
  "sorted (xs :: 'a::linorder list) \<Longrightarrow> sorted_wrt (<) (remdups_adj xs)"
proof (induction xs rule: remdups_adj.induct)
  case (3 x y xs)
  then show ?case
    by (auto simp: less_le) 
qed simp_all


lemma cut_keys_sorted:
  assumes sep: "sep \<noteq> []"
  shows "sorted_wrt (<) as \<Longrightarrow> sorted (map (\<lambda>a. p @ cut_after sep a) as)"
proof (induction as)
  case Nil
  then show ?case by simp
next
  case (Cons a as)
  then show ?case
    using cut_mono [OF sep] by (auto simp: append_le_append)
qed

lemma prefixed_keys:
  assumes "\<forall>k \<in> set ks. prefix p k"
  shows "map ((@) p) (map (drop (length p)) ks) = ks"
  using assms by (induction ks) (auto simp: prefix_def)

lemma prefixed_sorted:
  assumes "\<forall>k \<in> set ks. prefix p k" and "sorted_wrt (<) (ks :: string list)"
  shows "sorted_wrt (<) (map (drop (length p)) ks)"
proof -
  have "sorted_wrt (<) (map ((@) p) (map (drop (length p)) ks))"
    using assms by (simp only: prefixed_keys)
  then show ?thesis
    by (simp add: sorted_wrt_map append_less_append del: map_map)
qed

lemma truncate_key_no_sep: "truncate_key n [] = (\<lambda>k. k)"
  by (rule ext) (simp add: truncate_key_def)

lemma truncate_prefixed:
  assumes sep: "sep \<noteq> []" and "\<forall>k \<in> set ks. prefix p k"
  shows "map (truncate_key (length p) sep) ks =
    map (\<lambda>a. p @ cut_after sep a) (map (drop (length p)) ks)"
  using assms(2) by (induction ks) (auto simp: prefix_def truncate_key_cut [OF sep])

lemma stream_keys:
  "map Key (filter (kvs_match ''id_prefix'' [p]) rs) = filter (prefix p) (map Key rs)"
  by (induction rs) (auto simp: kvs_match_def)

lemma listed_keys_emitted:
  assumes "kvs_ordered s"
  shows "emitted (length pfx) sep [] (matching_keys s pfx) = listed_keys s pfx sep \<and>
     sorted_wrt (<) (listed_keys s pfx sep) \<and>
     (sep = [] \<longrightarrow> listed_keys s pfx sep = matching_keys s pfx)"
proof -
  let ?ks = "matching_keys s pfx"
  let ?as = "map (drop (length pfx)) ?ks"
  have pk: "\<forall>k \<in> set ?ks. prefix pfx k" by (simp add: matching_keys_def)
  have sk: "sorted_wrt (<) ?ks"
    using assms by (simp add: matching_keys_def kvs_ordered_def sorted_wrt_filter)
  show ?thesis
  proof (cases "sep = []")
    case True
    have "distinct ?ks" using sk by (simp add: strict_sorted_iff)
    then have "listed_keys s pfx sep = ?ks"
      by (simp add: listed_keys_def True truncate_key_no_sep remdups_adj_distinct)
    with True sk show ?thesis by (simp add: emitted_no_sep)
  next
    case False
    have sa: "sorted_wrt (<) ?as" by (rule prefixed_sorted [OF pk sk])
    have l: "listed_keys s pfx sep = remdups_adj (map (\<lambda>a. pfx @ cut_after sep a) ?as)"
      by (simp only: listed_keys_def truncate_prefixed [OF False pk])
    have "emitted (length pfx) sep [] (map ((@) pfx) ?as) =
        remdups_adj (map (\<lambda>a. pfx @ cut_after sep a) ?as)"
      by (rule emitted_remdups_adj [OF False sa])
    then have e: "emitted (length pfx) sep [] ?ks = listed_keys s pfx sep"
      by (simp only: prefixed_keys [OF pk] l)
    have "sorted_wrt (<) (listed_keys s pfx sep)"
      unfolding l by (rule sorted_remdups_adj_strict) (rule cut_keys_sorted [OF False sa])
    with e False show ?thesis by simp
  qed
qed

text \<open>
  C6. The rows of the kvs table being in ascending key order and no table operation failing,
  \<^verbatim>\<open>KVSListKeys(prefix, seperator)\<close> returns the watermark of kvs and \<open>listed_keys\<close>:
  each key with the prefix, cut after the first seperator behind the prefix (whole when there
  is none), equal neighbours once. The list is strictly ascending, so without duplicates, and
  with an empty seperator it is the list of the keys with the prefix. On the keys foo/a,
  foo/a/b, foo/a/c, foo/b, foo/b/d the listing of prefix foo/ and seperator / is foo/a, foo/a/,
  foo/b, foo/b/.
\<close>

theorem KVSListKeys_listing:
  assumes "kvs_ordered s" and "nofault flt"
  shows "KVSListKeys flt pfx seperator s =
      Inr (lastIndex (kvsTable s), listed_keys s pfx seperator, None) \<and>
    sorted_wrt (<) (listed_keys s pfx seperator) \<and>
    (seperator = [] \<longrightarrow> listed_keys s pfx seperator = matching_keys s pfx)"
proof -
  let ?stream = "filter (kvs_match ''id_prefix'' [pfx]) (rows (kvsTable s))"
  have len: "\<forall>ent \<in> set ?stream. length pfx \<le> length (Key ent)"
    by (auto simp: kvs_match_def prefix_def)
  have "listKeys_loop (length pfx) seperator ?stream [] [] =
      Inr ([] @ emitted (length pfx) seperator [] (map Key ?stream))"
    by (rule listKeys_loop_emitted [OF len])
  then have loop: "listKeys_loop (length pfx) seperator ?stream [] [] =
      Inr (listed_keys s pfx seperator)"
    using listed_keys_emitted [OF assms(1), of pfx seperator]
    by (simp add: stream_keys matching_keys_def)
  have "KVSListKeys flt pfx seperator s =
      Inr (lastIndex (kvsTable s), listed_keys s pfx seperator, None)"
    using assms(2) loop
    by (simp add: KVSListKeys_def StartTxn_def LastIndexTxn_def StreamTxn_def engine_op_def
        nofault_fails nofault_tl)
  with listed_keys_emitted [OF assms(1), of pfx seperator] show ?thesis by simp
qed

theorem KVSListKeys_listing_witness:
  "kvs_ordered store_foo \<and> nofault [] \<and>
   KVSListKeys [] ''foo/'' ''/'' store_foo =
     Inr (9, [''foo/a'', ''foo/a/'', ''foo/b'', ''foo/b/''], None) \<and>
   sorted_wrt (<) [''foo/a'', ''foo/a/'', ''foo/b'', ''foo/b/'']"
  using KVSListKeys_listing [of store_foo "[]" "''foo/''" "''/''"]
  by (simp add: kvs_ordered_def nofault_def store_foo_def entry_k_def empty_store_def
      empty_table_def listed_keys_def matching_keys_def truncate_key_def)

text \<open>The writes and deletes of the KV table keep its rows in ascending key order.\<close>

lemma upsert_ordered:
  assumes "sorted_wrt (<) (map key rs)"
  shows "sorted_wrt (<) (map key (upsert key r rs))"
proof -
  let ?rest = "filter (\<lambda>x. key x \<noteq> key r) rs"
  have s: "sorted (map key ?rest)" and d: "distinct (map key ?rest)"
    using assms by (simp_all add: strict_sorted_iff sorted_filter distinct_map_filter)
  have "sorted (map key (insort_key key r ?rest))"
    using s by (simp add: sorted_insort_key)
  moreover have "distinct (map key (insort_key key r ?rest))"
    using d by (auto simp: distinct_insort set_insort_key distinct_map inj_on_def)
  ultimately show ?thesis
    by (simp add: upsert_def strict_sorted_iff)
qed

lemma kvs_ordered_empty: "kvs_ordered empty_store"
  by (simp add: kvs_ordered_def empty_store_def empty_table_def)

lemma kvs_ordered_KVSSet: "kvs_ordered s \<Longrightarrow> kvs_ordered (st (KVSSet flt i d s))"
  using KVSSet_cases [of flt i d s] upsert_ordered [of Key "rows (kvsTable s)" "stamped s i d"]
  by (auto simp: kvs_ordered_def)

lemma kvs_ordered_KVSCheckAndSet:
  "kvs_ordered s \<Longrightarrow> kvs_ordered (st (KVSCheckAndSet flt i d s))"
  using KVSCheckAndSet_cases [of flt i d s]
    upsert_ordered [of Key "rows (kvsTable s)" "stamped s i d"]
  by (auto simp: kvs_ordered_def)

lemma kvs_ordered_KVSRestore: "kvs_ordered s \<Longrightarrow> kvs_ordered (st (KVSRestore flt d s))"
  using upsert_ordered [of Key "rows (kvsTable s)" d]
  by (auto simp: kvs_ordered_def KVSRestore_def table_ops)

lemma kvs_ordered_kvsDeleteWithIndex:
  "kvs_ordered s \<Longrightarrow> kvs_ordered (st (kvsDeleteWithIndex flt i tableIndex parts s))"
  by (auto simp: kvs_ordered_def kvsDeleteWithIndex_def table_ops sorted_wrt_filter
      sorted_wrt_map)

end
